theory Spec2Isabelle
  imports Complex_Main
begin

section \<open>Data model of \<open>src/index.ts\<close>\<close>

text \<open>
  The package keeps one process-wide manager (the module variables \<open>globals\<close>,
  \<open>locals\<close>, \<open>root\<close>, \<open>timeoutRecoverRoot\<close>), the two static fields of class
  \<open>HotKey\<close> (\<open>lastHotKey\<close>, \<open>lastFire\<close>) and the builder objects themselves.
  The module state becomes an explicit record that every operation takes and returns.
\<close>

datatype Stroke = Single | Double

text \<open>
  A JavaScript \<open>number\<close> used as a timeout: every finite double is a rational, and the
  three special values are kept apart because the code tests \<open>isNaN\<close> and calls
  \<open>Math.min\<close>. Clock readings (\<open>Date.now()\<close>) are integers and are modelled as \<open>int\<close>.
  A time value is a clock reading in the range of \<open>Date\<close>.
\<close>

datatype jsnum = NaN | NegInf | Fin rat | PosInf

definition time_value :: "int \<Rightarrow> bool" where
  "time_value t = (\<bar>t\<bar> \<le> 8640000000000000)"

fun isNaN :: "jsnum \<Rightarrow> bool" where
  "isNaN NaN = True"
| "isNaN _ = False"


text \<open>\<open>a <= b\<close> of JavaScript with a finite left operand: false whenever \<open>b\<close> is NaN.\<close>

fun js_le :: "int \<Rightarrow> jsnum \<Rightarrow> bool" where
  "js_le e NaN = False"
| "js_le e NegInf = False"
| "js_le e (Fin q) = (of_int e \<le> q)"
| "js_le e PosInf = True"

text \<open>\<open>Math.min(a, b)\<close>: NaN when either argument is NaN, the smaller one otherwise.\<close>

fun Math_min :: "jsnum \<Rightarrow> jsnum \<Rightarrow> jsnum" where
  "Math_min NaN b = NaN"
| "Math_min a NaN = NaN"
| "Math_min NegInf b = NegInf"
| "Math_min a NegInf = NegInf"
| "Math_min PosInf b = b"
| "Math_min a PosInf = a"
| "Math_min (Fin p) (Fin q) = Fin (min p q)"

text \<open>
  Class \<open>HotKey\<close>. \<open>ref\<close> is the object's reference (what \<open>===\<close> compares); \<open>mods\<close> and
  \<open>code\<close> are values of the enums \<open>Mod\<close> and \<open>KeyCode\<close> of \<open>@hotk/core\<close>, taken as
  numbers; \<open>hk_id\<close> is the readonly field \<open>id\<close>. The private fields \<open>_stroke\<close>,
  \<open>_action\<close>, ... are written \<open>u_stroke\<close>, \<open>u_action\<close>, ... The callback \<open>_action\<close> is
  user code: it is represented by a label, and calling it appends the label to the
  trace \<open>fired\<close> of the state. The model takes the callback to return normally and
  not to call the manager itself. A hotkey is a value: the builder calls are finished
  before the hotkey is handed to the manager or to a parent hotkey.
\<close>

datatype HotKey = HotKey
  (ref: nat)
  (mods: "nat list")
  (code: nat)
  (hk_id: nat)
  (u_description: "string option")
  (u_stroke: Stroke)
  (u_strokeTimeout: jsnum)
  (u_action: nat)
  (u_subactions: "HotKey list")
  (u_subactionsTimeout: jsnum)
  (u_backToRoot: bool)
  (u_global: bool)

datatype error = Duplicated_hotkey | Subactions_not_supported

datatype outcome = Ok | Threw error

text \<open>
  The constructor. \<open>getHotkeyId\<close> is imported from \<open>@hotk/core\<close> and is a parameter;
  \<open>r\<close> is the reference of the fresh object; the action defaults to the empty
  callback, label \<open>0\<close>.
\<close>

definition hotKey :: "(nat \<Rightarrow> nat list \<Rightarrow> nat) \<Rightarrow> nat \<Rightarrow> nat list \<Rightarrow> nat \<Rightarrow> HotKey" where
  "hotKey getHotkeyId r ms keyCode =
     HotKey r ms keyCode (getHotkeyId keyCode ms) None Single (Fin 1000) 0 [] (Fin 1000) True False"

subsection \<open>The fluent builder\<close>

fun description :: "string \<Rightarrow> HotKey \<Rightarrow> HotKey" where
  "description d (HotKey r ms c i ds st sto a subs subto b g) =
     HotKey r ms c i (Some d) st sto a subs subto b g"

fun stroke :: "Stroke \<Rightarrow> HotKey \<Rightarrow> HotKey" where
  "stroke v (HotKey r ms c i ds st sto a subs subto b g) =
     HotKey r ms c i ds v sto a subs subto b g"

fun strokeTimeout :: "jsnum \<Rightarrow> HotKey \<Rightarrow> HotKey" where
  "strokeTimeout v (HotKey r ms c i ds st sto a subs subto b g) =
     HotKey r ms c i ds st v a subs subto b g"

fun action :: "nat \<Rightarrow> HotKey \<Rightarrow> HotKey" where
  "action v (HotKey r ms c i ds st sto a subs subto b g) =
     HotKey r ms c i ds st sto v subs subto b g"

fun subaction :: "HotKey \<Rightarrow> HotKey \<Rightarrow> error + HotKey" where
  "subaction v (HotKey r ms c i ds st sto a subs subto b g) =
     (if g then Inl Subactions_not_supported
      else Inr (HotKey r ms c i ds st sto a (subs @ [v]) subto b g))"

fun subactions :: "HotKey list \<Rightarrow> HotKey \<Rightarrow> error + HotKey" where
  "subactions v (HotKey r ms c i ds st sto a subs subto b g) =
     (if g then Inl Subactions_not_supported
      else Inr (HotKey r ms c i ds st sto a v subto b g))"

fun subactionsTimeout :: "jsnum \<Rightarrow> HotKey \<Rightarrow> HotKey" where
  "subactionsTimeout v (HotKey r ms c i ds st sto a subs subto b g) =
     HotKey r ms c i ds st sto a subs v b g"

fun backToRoot :: "bool \<Rightarrow> HotKey \<Rightarrow> HotKey" where
  "backToRoot v (HotKey r ms c i ds st sto a subs subto b g) =
     HotKey r ms c i ds st sto a subs subto v g"

fun global :: "bool \<Rightarrow> HotKey \<Rightarrow> HotKey" where
  "global v (HotKey r ms c i ds st sto a subs subto b g) =
     HotKey r ms c i ds st sto a [] subto b v"

subsection \<open>Objects with numeric keys\<close>

text \<open>
  \<open>globals\<close> and \<open>locals\<close> are plain objects indexed by hotkey ids. JavaScript enumerates
  the own keys of an object in two groups: first the array indices (the integers up to
  \<open>2^32 - 2\<close>) in ascending order, then every other key in the order of insertion.
  The object is the list of its (key, value) pairs in that order; assigning to a key that
  is present keeps its place; \<open>Object.values\<close> reads the values in that order.
  Every stored value is a \<open>HotKey\<close> object, hence truthy: \<open>m[k]\<close> is falsy exactly when
  the key is absent.
\<close>

type_synonym 'a obj = "(nat \<times> 'a) list"

definition array_index :: "nat \<Rightarrow> bool" where
  "array_index k = (k < 4294967295)"

definition obj_get :: "'a obj \<Rightarrow> nat \<Rightarrow> 'a option" where
  "obj_get m k = map_of m k"

fun obj_set :: "nat \<Rightarrow> 'a \<Rightarrow> 'a obj \<Rightarrow> 'a obj" where
  "obj_set k v [] = [(k, v)]"
| "obj_set k v ((k', v') # m) =
     (if k = k' then (k, v) # m
      else if array_index k \<and> (\<not> array_index k' \<or> k < k') then (k, v) # (k', v') # m
      else (k', v') # obj_set k v m)"

definition obj_delete :: "nat \<Rightarrow> 'a obj \<Rightarrow> 'a obj" where
  "obj_delete k m = filter (\<lambda>p. fst p \<noteq> k) m"

definition Object_values :: "'a obj \<Rightarrow> 'a list" where
  "Object_values m = map snd m"

definition keys :: "'a obj \<Rightarrow> nat set" where
  "keys m = fst ` set m"

subsection \<open>The native core and the manager state\<close>

text \<open>
  \<open>innerManager\<close> is the \<open>HotkManager\<close> of \<open>@hotk/core\<close>. Its two calls used here
  answer with a result (\<open>isOk()\<close>, \<open>id\<close>) and may change the core's own state \<open>'n\<close>;
  both are parameters of the model.
\<close>

record nresult =
  isOk :: bool
  rid :: nat

record 'n HotkManager =
  hm_register :: "nat list \<Rightarrow> nat \<Rightarrow> 'n \<Rightarrow> nresult \<times> 'n"
  hm_unregister :: "nat list \<Rightarrow> nat \<Rightarrow> 'n \<Rightarrow> nresult \<times> 'n"

text \<open>
  \<open>timers\<close> is the set of pending timers of the event loop (handle and delay), and
  \<open>nextTimer\<close> the next handle \<open>setTimeout\<close> returns. \<open>lastHotKey\<close> holds the reference
  of the last hotkey, \<open>None\<close> for \<open>null\<close>.
\<close>

record 'n mstate =
  native :: 'n
  globals :: "HotKey obj"
  locals :: "HotKey obj"
  root :: "HotKey list option"
  timeoutRecoverRoot :: "nat option"
  timers :: "(nat \<times> jsnum) list"
  nextTimer :: nat
  lastHotKey :: "nat option"
  lastFire :: int
  fired :: "nat list"

text \<open>\<open>new Date(-8640000000000000).getTime()\<close>, the stamp that means "never".\<close>

definition never :: int where
  "never = - 8640000000000000"

definition init :: "'n \<Rightarrow> 'n mstate" where
  "init n = \<lparr>native = n, globals = [], locals = [], root = None,
     timeoutRecoverRoot = None, timers = [], nextTimer = 0,
     lastHotKey = None, lastFire = never, fired = []\<rparr>"

definition clearInterval :: "nat option \<Rightarrow> 'n mstate \<Rightarrow> 'n mstate" where
  "clearInterval t s =
     (case t of None \<Rightarrow> s
      | Some h \<Rightarrow> s\<lparr>timers := filter (\<lambda>p. fst p \<noteq> h) (timers s)\<rparr>)"

definition setTimeout :: "jsnum \<Rightarrow> 'n mstate \<Rightarrow> nat \<times> 'n mstate" where
  "setTimeout delay s =
     (nextTimer s, s\<lparr>timers := timers s @ [(nextTimer s, delay)], nextTimer := Suc (nextTimer s)\<rparr>)"

subsection \<open>The manager\<close>

definition register :: "'n HotkManager \<Rightarrow> HotKey \<Rightarrow> bool \<Rightarrow> 'n mstate \<Rightarrow> outcome \<times> 'n mstate" where
  "register N hk isGlobal s =
     (if obj_get (locals s) (hk_id hk) \<noteq> None \<or> obj_get (globals s) (hk_id hk) \<noteq> None
      then (Threw Duplicated_hotkey, s)
      else (case hm_register N (mods hk) (code hk) (native s) of
              (result, n') \<Rightarrow>
                 if isOk result
                 then (if isGlobal
                       then (Ok, s\<lparr>native := n', globals := obj_set (rid result) hk (globals s)\<rparr>)
                       else (Ok, s\<lparr>native := n', locals := obj_set (rid result) hk (locals s)\<rparr>))
                 else (Ok, s\<lparr>native := n'\<rparr>)))"

definition unregister :: "'n HotkManager \<Rightarrow> HotKey \<Rightarrow> 'n mstate \<Rightarrow> 'n mstate" where
  "unregister N hk s =
     (case hm_unregister N (mods hk) (code hk) (native s) of
        (result, n') \<Rightarrow>
           if isOk result
           then s\<lparr>native := n', locals := obj_delete (rid result) (locals s),
                   globals := obj_delete (rid result) (globals s)\<rparr>
           else s\<lparr>native := n'\<rparr>)"

text \<open>\<open>clearLocals\<close>: the loop runs over the array \<open>Object.values(locals)\<close> taken at its start.\<close>

definition clearLocals :: "'n HotkManager \<Rightarrow> 'n mstate \<Rightarrow> 'n mstate" where
  "clearLocals N s = fold (unregister N) (Object_values (locals s)) s"

text \<open>The loop \<open>for (const hotKey of hotKeys) manager.register(hotKey, false)\<close>; a throw ends it.\<close>

fun registerEach :: "'n HotkManager \<Rightarrow> HotKey list \<Rightarrow> 'n mstate \<Rightarrow> outcome \<times> 'n mstate" where
  "registerEach N [] s = (Ok, s)"
| "registerEach N (hk # hks) s =
     (case register N hk False s of
        (Threw e, s') \<Rightarrow> (Threw e, s')
      | (Ok, s') \<Rightarrow> registerEach N hks s')"

definition withSnapshot :: "'n HotkManager \<Rightarrow> HotKey list \<Rightarrow> jsnum \<Rightarrow> 'n mstate \<Rightarrow> outcome \<times> 'n mstate" where
  "withSnapshot N hotKeys timeout s =
     (let s1 = (if timeoutRecoverRoot s \<noteq> None then clearInterval (timeoutRecoverRoot s) s else s);
          s2 = (if root s1 = None then s1\<lparr>root := Some (Object_values (locals s1))\<rparr> else s1);
          s3 = clearLocals N s2
      in case registerEach N hotKeys s3 of
           (Threw e, s4) \<Rightarrow> (Threw e, s4)
         | (Ok, s4) \<Rightarrow>
             if \<not> isNaN timeout
             then (case setTimeout (Math_min timeout (Fin 2147483647)) s4 of
                     (h, s5) \<Rightarrow> (Ok, s5\<lparr>timeoutRecoverRoot := Some h\<rparr>))
             else (Ok, s4))"

definition recoverRoot :: "'n HotkManager \<Rightarrow> 'n mstate \<Rightarrow> outcome \<times> 'n mstate" where
  "recoverRoot N s =
     (case root s of
        None \<Rightarrow> (Ok, s)
      | Some r \<Rightarrow>
          (let s1 = clearInterval (timeoutRecoverRoot s) s;
               s2 = clearLocals N s1
           in case registerEach N r s2 of
                (Threw e, s3) \<Rightarrow> (Threw e, s3)
              | (Ok, s3) \<Rightarrow> (Ok, s3\<lparr>root := None, timeoutRecoverRoot := None\<rparr>)))"

text \<open>The callback of the revert timer, run by the event loop when timer \<open>h\<close> is due.\<close>

definition timerExpires :: "'n HotkManager \<Rightarrow> nat \<Rightarrow> 'n mstate \<Rightarrow> outcome \<times> 'n mstate" where
  "timerExpires N h s =
     (if h \<in> fst ` set (timers s)
      then recoverRoot N (s\<lparr>timers := filter (\<lambda>p. fst p \<noteq> h) (timers s)\<rparr>)
      else (Ok, s))"

subsection \<open>Firing\<close>

definition fireSubactions :: "'n HotkManager \<Rightarrow> HotKey \<Rightarrow> 'n mstate \<Rightarrow> outcome \<times> 'n mstate" where
  "fireSubactions N this s =
     (if length (u_subactions this) = 0
      then recoverRoot N s
      else withSnapshot N (u_subactions this) (u_subactionsTimeout this) s)"

text \<open>
  \<open>Date.now() - HotKey.lastFire\<close> subtracts two doubles that hold integers (time values,
  at most 8640000000000000 in absolute value). The result is the exact difference rounded
  to the nearest double, ties to the even significand: exact below \<open>2^53\<close>, and above
  it rounded to a multiple of the spacing \<open>2^k\<close>, where \<open>k\<close> is the number of bits
  the difference has beyond 53. \<open>width\<close> is the number of bits of a natural number.
\<close>

fun width :: "nat \<Rightarrow> nat" where
  "width n = (if n = 0 then 0 else Suc (width (n div 2)))"

declare width.simps [simp del]

definition round53 :: "int \<Rightarrow> int" where
  "round53 d =
     (let m = nat \<bar>d\<bar>; k = width m - 53; q = m div 2 ^ k; r = m mod 2 ^ k
      in if k = 0 then d
         else sgn d * int ((if 2 ^ k < 2 * r \<or> (2 * r = 2 ^ k \<and> odd q) then q + 1 else q) * 2 ^ k))"

definition js_minus :: "int \<Rightarrow> int \<Rightarrow> int" where
  "js_minus a b = round53 (a - b)"

text \<open>
  \<open>fire\<close> reads the clock twice: \<open>t1\<close> is the reading inside the condition, \<open>t2\<close> the one
  stored by the else branch.
\<close>

definition fire :: "'n HotkManager \<Rightarrow> int \<Rightarrow> int \<Rightarrow> HotKey \<Rightarrow> 'n mstate \<Rightarrow> outcome \<times> 'n mstate" where
  "fire N t1 t2 this s =
     (if u_stroke this = Single \<or>
         (lastHotKey s = Some (ref this) \<and>
          js_le (js_minus t1 (lastFire s)) (u_strokeTimeout this))
      then (case fireSubactions N this (s\<lparr>lastFire := never, fired := fired s @ [u_action this]\<rparr>) of
              (Threw e, s') \<Rightarrow> (Threw e, s')
            | (Ok, s') \<Rightarrow> (Ok, s'\<lparr>lastHotKey := Some (ref this)\<rparr>))
      else (Ok, s\<lparr>lastFire := t2, lastHotKey := Some (ref this)\<rparr>))"

datatype EventType = Pressed | Released

record Event =
  ev_id :: nat
  eventType :: EventType

definition handleEvent :: "'n HotkManager \<Rightarrow> int \<Rightarrow> int \<Rightarrow> Event \<Rightarrow> 'n mstate \<Rightarrow> outcome \<times> 'n mstate" where
  "handleEvent N t1 t2 event s =
     (let handler = (case obj_get (globals s) (ev_id event) of
                       Some hk \<Rightarrow> Some hk
                     | None \<Rightarrow> obj_get (locals s) (ev_id event))
      in if eventType event = Pressed
         then (case handler of None \<Rightarrow> (Ok, s) | Some hk \<Rightarrow> fire N t1 t2 hk s)
         else (Ok, s))"

section \<open>Predicates used in the statements\<close>

text \<open>
  The constructor stores \<open>getHotkeyId(code, mods)\<close> in \<open>id\<close>. \<open>id_computed\<close> says that
  a hotkey and all its subactions carry the id the constructor gave them.
\<close>

fun id_computed :: "(nat \<Rightarrow> nat list \<Rightarrow> nat) \<Rightarrow> HotKey \<Rightarrow> bool" where
  "id_computed getHotkeyId (HotKey r ms c i ds st sto a subs subto b g) =
     (i = getHotkeyId c ms \<and> list_all (id_computed getHotkeyId) subs)"

text \<open>The invariant of the data model: no key is in both \<open>globals\<close> and \<open>locals\<close>.\<close>

definition disjoint_scopes :: "'n mstate \<Rightarrow> bool" where
  "disjoint_scopes s = (keys (globals s) \<inter> keys (locals s) = {})"

text \<open>The hotkeys the manager holds: the values of both scopes and the root snapshot.\<close>

definition stored :: "'n mstate \<Rightarrow> HotKey set" where
  "stored s = set (Object_values (globals s)) \<union> set (Object_values (locals s)) \<union>
     (case root s of None \<Rightarrow> {} | Some r \<Rightarrow> set r)"

definition scopes_inv :: "(nat \<Rightarrow> nat list \<Rightarrow> nat) \<Rightarrow> 'n mstate \<Rightarrow> bool" where
  "scopes_inv getHotkeyId s = (disjoint_scopes s \<and> (\<forall>hk \<in> stored s. id_computed getHotkeyId hk))"

text \<open>
  Two assumptions on the native core. \<open>reports_computed_id\<close>: whenever a register call
  succeeds, the identity it reports is the one \<open>getHotkeyId\<close> computes.
  \<open>cooperative\<close>: every register and unregister call succeeds and reports that identity.
\<close>

definition reports_computed_id :: "(nat \<Rightarrow> nat list \<Rightarrow> nat) \<Rightarrow> 'n HotkManager \<Rightarrow> bool" where
  "reports_computed_id getHotkeyId N =
     (\<forall>ms c n. isOk (fst (hm_register N ms c n)) \<longrightarrow> rid (fst (hm_register N ms c n)) = getHotkeyId c ms)"

definition cooperative :: "(nat \<Rightarrow> nat list \<Rightarrow> nat) \<Rightarrow> 'n HotkManager \<Rightarrow> bool" where
  "cooperative getHotkeyId N =
     (\<forall>ms c n. fst (hm_register N ms c n) = \<lparr>isOk = True, rid = getHotkeyId c ms\<rparr> \<and>
                fst (hm_unregister N ms c n) = \<lparr>isOk = True, rid = getHotkeyId c ms\<rparr>)"

text \<open>Every entry of the object sits under the id of its hotkey, and that id is computed.\<close>

definition keyed :: "(nat \<Rightarrow> nat list \<Rightarrow> nat) \<Rightarrow> HotKey obj \<Rightarrow> bool" where
  "keyed getHotkeyId m =
     list_all (\<lambda>p. hk_id (snd p) = fst p \<and> id_computed getHotkeyId (snd p)) m"

text \<open>
  The state of the native core after it has been asked to release, or to capture, the
  hotkeys of a list in order; the entries a list of hotkeys makes when each is stored
  under its id; and the object that storing them one after the other gives.
\<close>

definition released :: "'n HotkManager \<Rightarrow> HotKey list \<Rightarrow> 'n \<Rightarrow> 'n" where
  "released N hks n = fold (\<lambda>hk. snd \<circ> hm_unregister N (mods hk) (code hk)) hks n"

definition captured :: "'n HotkManager \<Rightarrow> HotKey list \<Rightarrow> 'n \<Rightarrow> 'n" where
  "captured N hks n = fold (\<lambda>hk. snd \<circ> hm_register N (mods hk) (code hk)) hks n"

definition entries :: "HotKey list \<Rightarrow> (nat \<times> HotKey) set" where
  "entries hks = (\<lambda>hk. (hk_id hk, hk)) ` set hks"

definition placed :: "HotKey list \<Rightarrow> HotKey obj \<Rightarrow> HotKey obj" where
  "placed hks m = fold (\<lambda>hk. obj_set (hk_id hk) hk) hks m"

text \<open>
  \<open>untouched\<close>: only the native core and the two scopes differ between two states.
  \<open>same_stroke_state\<close>: the stroke detector's fields and the trace are equal.
\<close>

definition untouched :: "'n mstate \<Rightarrow> 'n mstate \<Rightarrow> bool" where
  "untouched s s' = (root s' = root s \<and> timeoutRecoverRoot s' = timeoutRecoverRoot s \<and>
     timers s' = timers s \<and> nextTimer s' = nextTimer s \<and> lastHotKey s' = lastHotKey s \<and>
     lastFire s' = lastFire s \<and> fired s' = fired s)"

definition same_stroke_state :: "'n mstate \<Rightarrow> 'n mstate \<Rightarrow> bool" where
  "same_stroke_state s s' = (lastHotKey s' = lastHotKey s \<and> lastFire s' = lastFire s \<and> fired s' = fired s)"

text \<open>
  At most one revert timer is pending, and if one is, \<open>timeoutRecoverRoot\<close> holds its handle.
\<close>

fun only_timer :: "(nat \<times> jsnum) list \<Rightarrow> nat option \<Rightarrow> bool" where
  "only_timer [] t = True"
| "only_timer [p] t = (t = Some (fst p))"
| "only_timer (p # q # ps) t = False"

definition one_timer :: "'n mstate \<Rightarrow> bool" where
  "one_timer s = only_timer (timers s) (timeoutRecoverRoot s)"

section \<open>Sample hotkeys, native cores and states\<close>

text \<open>
  Concrete instances for the parameters, used to evaluate the model. The sample
  \<open>getHotkeyId\<close> adds the key code to 1000 times the sum of the modifiers.
  \<open>counting_core\<close> accepts every call, reports the computed id and counts its calls;
  \<open>picky_core\<close> does the same but rejects key code 66; \<open>keycode_core\<close> accepts every
  call and reports the key code alone as identity.
\<close>

definition sample_getHotkeyId :: "nat \<Rightarrow> nat list \<Rightarrow> nat" where
  "sample_getHotkeyId keyCode ms = keyCode + 1000 * sum_list ms"

definition counting_core :: "nat HotkManager" where
  "counting_core = \<lparr>
     hm_register = (\<lambda>ms c n. (\<lparr>isOk = True, rid = sample_getHotkeyId c ms\<rparr>, Suc n)),
     hm_unregister = (\<lambda>ms c n. (\<lparr>isOk = True, rid = sample_getHotkeyId c ms\<rparr>, Suc n))\<rparr>"

definition picky_core :: "nat HotkManager" where
  "picky_core = \<lparr>
     hm_register = (\<lambda>ms c n. (\<lparr>isOk = (c \<noteq> 66), rid = sample_getHotkeyId c ms\<rparr>, Suc n)),
     hm_unregister = (\<lambda>ms c n. (\<lparr>isOk = (c \<noteq> 66), rid = sample_getHotkeyId c ms\<rparr>, Suc n))\<rparr>"

definition keycode_core :: "nat HotkManager" where
  "keycode_core = \<lparr>
     hm_register = (\<lambda>ms c n. (\<lparr>isOk = True, rid = c\<rparr>, Suc n)),
     hm_unregister = (\<lambda>ms c n. (\<lparr>isOk = True, rid = c\<rparr>, Suc n))\<rparr>"

text \<open>
  Ctrl+A (modifier 2, key 65) with the subaction B, as in the README; a second object
  for the same combination; N built with \<open>backToRoot(false)\<close>; Escape as a global
  hotkey and as a subaction of Ctrl+E; two objects for Ctrl+Escape; Ctrl+D with a double
  stroke and three stroke timeouts.
\<close>

definition keyB :: HotKey where
  "keyB = action 2 (hotKey sample_getHotkeyId 2 [] 66)"

definition ctrlA :: HotKey where
  "ctrlA = HotKey 1 [2] 65 2065 None Single (Fin 1000) 1 [keyB] (Fin 1000) True False"

definition ctrlA_again :: HotKey where
  "ctrlA_again = action 4 (hotKey sample_getHotkeyId 4 [2] 65)"

definition keyN :: HotKey where
  "keyN = global True (backToRoot False (action 3 (hotKey sample_getHotkeyId 3 [] 78)))"

definition escape :: HotKey where
  "escape = global True (action 5 (hotKey sample_getHotkeyId 5 [] 27))"

definition ctrlEscape :: HotKey where
  "ctrlEscape = action 6 (hotKey sample_getHotkeyId 6 [2] 27)"

definition ctrlEscape_again :: HotKey where
  "ctrlEscape_again = action 12 (hotKey sample_getHotkeyId 12 [2] 27)"

definition ctrlD :: HotKey where
  "ctrlD = stroke Double (action 7 (hotKey sample_getHotkeyId 7 [2] 68))"

definition ctrlD_forever :: HotKey where
  "ctrlD_forever = strokeTimeout PosInf ctrlD"

definition ctrlD_long :: HotKey where
  "ctrlD_long = strokeTimeout (Fin 9640000000000000) ctrlD"

definition escape_child :: HotKey where
  "escape_child = action 9 (hotKey sample_getHotkeyId 9 [] 27)"

definition ctrlE :: HotKey where
  "ctrlE = HotKey 8 [2] 69 2069 None Single (Fin 1000) 8 [escape_child] (Fin 1000) True False"

definition keyF2 :: HotKey where
  "keyF2 = action 10 (hotKey sample_getHotkeyId 10 [] 113)"

definition ctrlA_global :: HotKey where
  "ctrlA_global = global True (action 11 (hotKey sample_getHotkeyId 11 [2] 65))"

definition pressed :: "HotKey \<Rightarrow> Event" where
  "pressed hk = \<lparr>ev_id = hk_id hk, eventType = Pressed\<rparr>"

text \<open>
  States reached from the initial one: Ctrl+A registered; Ctrl+A and N registered and
  Ctrl+A pressed (the context of B); Escape global and Ctrl+E local; Ctrl+D pressed once;
  Ctrl+D with an infinite stroke timeout pressed twice; F2 and Ctrl+A registered, Ctrl+A
  pressed, then a global hotkey registered on Ctrl+A's combination.
\<close>

definition at_root :: "nat mstate" where
  "at_root = snd (register counting_core ctrlA False (init 0))"

definition descended :: "nat mstate" where
  "descended = snd (handleEvent counting_core 5000 5000 (pressed ctrlA)
       (snd (register counting_core keyN True (snd (register counting_core ctrlA False (init 0))))))"

definition clash_state :: "nat mstate" where
  "clash_state = snd (register counting_core ctrlE False (snd (register counting_core escape True (init 0))))"

definition awaiting :: "nat mstate" where
  "awaiting = snd (fire counting_core 1000 1000 ctrlD (init 0))"

definition after_double :: "nat mstate" where
  "after_double = snd (fire counting_core 1200 1200 ctrlD_forever
      (snd (fire counting_core 1000 1000 ctrlD_forever (init 0))))"

definition stuck :: "nat mstate" where
  "stuck = snd (register counting_core ctrlA_global True
     (snd (handleEvent counting_core 5000 5000 (pressed ctrlA)
       (snd (register counting_core ctrlA False (snd (register counting_core keyF2 False (init 0))))))))"

section \<open>Lemmas\<close>

lemmas sample_defs = sample_getHotkeyId_def counting_core_def picky_core_def
  keycode_core_def keyB_def ctrlA_def ctrlA_again_def keyN_def escape_def ctrlEscape_def ctrlEscape_again_def ctrlD_def
  ctrlD_forever_def ctrlD_long_def escape_child_def ctrlE_def keyF2_def ctrlA_global_def pressed_def hotKey_def
  init_def

lemmas op_defs = register_def unregister_def clearLocals_def withSnapshot_def recoverRoot_def
  fireSubactions_def fire_def handleEvent_def clearInterval_def setTimeout_def timerExpires_def
  obj_get_def obj_delete_def Object_values_def never_def array_index_def

lemma width_le: "n < 2 ^ k \<Longrightarrow> width n \<le> k"
proof (induction k arbitrary: n)
  case 0
  then show ?case by (simp add: width.simps)
next
  case (Suc k)
  show ?case
  proof (cases "n = 0")
    case True
    then show ?thesis by (simp add: width.simps)
  next
    case False
    from Suc.prems have "n div 2 < 2 ^ k" by simp
    then have "width (n div 2) \<le> k" by (rule Suc.IH)
    with False show ?thesis by (simp add: width.simps [of n])
  qed
qed

lemma round53_exact: "\<bar>d\<bar> < 9007199254740992 \<Longrightarrow> round53 d = d"
proof -
  assume "\<bar>d\<bar> < 9007199254740992"
  then have "nat \<bar>d\<bar> < 2 ^ 53" by simp
  then have "width (nat \<bar>d\<bar>) \<le> 53" by (rule width_le)
  then show ?thesis by (simp add: round53_def Let_def)
qed

lemma width_sample: "width 9640000000000001 = 54"
  by (simp add: width.simps)

lemma js_minus_exact [simp]: "\<bar>a - b\<bar> < 9007199254740992 \<Longrightarrow> js_minus a b = a - b"
  by (simp add: js_minus_def round53_exact)

lemma obj_get_set: "obj_get (obj_set k v m) k' = (if k' = k then Some v else obj_get m k')"
  by (induction m) (auto simp: obj_get_def)

lemma set_obj_set_sub: "set (obj_set k v m) \<subseteq> insert (k, v) (set m)"
  by (induction m) (auto split: if_splits)

lemma obj_set_mem: "(k, v) \<in> set (obj_set k v m)"
  by (induction m) auto

lemma obj_set_keeps: "p \<in> set m \<Longrightarrow> fst p \<noteq> k \<Longrightarrow> p \<in> set (obj_set k v m)"
  by (induction m) auto

lemma keys_obj_set: "keys (obj_set k v m) = insert k (keys m)"
proof
  show "keys (obj_set k v m) \<subseteq> insert k (keys m)"
    using set_obj_set_sub [of k v m] by (auto simp: keys_def)
  show "insert k (keys m) \<subseteq> keys (obj_set k v m)"
  proof
    fix x assume "x \<in> insert k (keys m)"
    then consider "x = k" | "x \<noteq> k" "x \<in> keys m" by auto
    then show "x \<in> keys (obj_set k v m)"
    proof cases
      case 1
      then show ?thesis using obj_set_mem [of k v m] by (force simp: keys_def)
    next
      case 2
      then obtain p where "p \<in> set m" "fst p = x" by (auto simp: keys_def)
      with 2 have "p \<in> set (obj_set k v m)" by (simp add: obj_set_keeps)
      with \<open>fst p = x\<close> show ?thesis by (force simp: keys_def)
    qed
  qed
qed

lemma keys_obj_delete: "keys (obj_delete k m) = keys m - {k}"
  by (auto simp: keys_def obj_delete_def)

lemma obj_get_None: "(obj_get m k = None) = (k \<notin> keys m)"
  by (simp add: obj_get_def keys_def map_of_eq_None_iff)

lemma obj_get_Some_value: "obj_get m k = Some v \<Longrightarrow> v \<in> set (Object_values m)"
  unfolding obj_get_def Object_values_def by (metis map_of_SomeD snd_conv image_eqI set_map)

lemma values_obj_set: "set (Object_values (obj_set k v m)) \<subseteq> insert v (set (Object_values m))"
  using set_obj_set_sub [of k v m] unfolding Object_values_def by force

lemma values_obj_delete: "set (Object_values (obj_delete k m)) \<subseteq> set (Object_values m)"
  by (auto simp: obj_delete_def Object_values_def)

lemma id_computed_id: "id_computed gid hk \<Longrightarrow> hk_id hk = gid (code hk) (mods hk)"
  by (cases hk) simp

lemma id_computed_subactions: "id_computed gid hk \<Longrightarrow> list_all (id_computed gid) (u_subactions hk)"
  by (cases hk) simp

lemma stored_register: "stored (snd (register N hk g s)) \<subseteq> insert hk (stored s)"
proof -
  obtain result n' where call: "hm_register N (mods hk) (code hk) (native s) = (result, n')"
    by (cases "hm_register N (mods hk) (code hk) (native s)")
  have "set (Object_values (obj_set (rid result) hk (globals s))) \<subseteq> insert hk (set (Object_values (globals s)))"
    and "set (Object_values (obj_set (rid result) hk (locals s))) \<subseteq> insert hk (set (Object_values (locals s)))"
    by (rule values_obj_set)+
  then show ?thesis using call
    by (simp add: register_def stored_def) blast
qed

lemma stored_unregister: "stored (unregister N hk s) \<subseteq> stored s"
proof -
  obtain result n' where call: "hm_unregister N (mods hk) (code hk) (native s) = (result, n')"
    by (cases "hm_unregister N (mods hk) (code hk) (native s)")
  have "set (Object_values (obj_delete (rid result) (globals s))) \<subseteq> set (Object_values (globals s))"
    and "set (Object_values (obj_delete (rid result) (locals s))) \<subseteq> set (Object_values (locals s))"
    by (rule values_obj_delete)+
  then show ?thesis using call
    by (simp add: unregister_def stored_def) blast
qed

lemma disjoint_register:
  assumes N: "reports_computed_id gid N" and d: "disjoint_scopes s" and hk: "id_computed gid hk"
  shows "disjoint_scopes (snd (register N hk g s))"
proof (cases "obj_get (locals s) (hk_id hk) \<noteq> None \<or> obj_get (globals s) (hk_id hk) \<noteq> None")
  case True
  then show ?thesis using d by (simp add: register_def)
next
  case False
  then have fresh: "hk_id hk \<notin> keys (locals s)" "hk_id hk \<notin> keys (globals s)"
    by (simp_all add: obj_get_None)
  obtain result n' where call: "hm_register N (mods hk) (code hk) (native s) = (result, n')"
    by (cases "hm_register N (mods hk) (code hk) (native s)")
  show ?thesis
  proof (cases "isOk result")
    case False
    with \<open>\<not> (obj_get (locals s) (hk_id hk) \<noteq> None \<or> obj_get (globals s) (hk_id hk) \<noteq> None)\<close> call d
    show ?thesis by (simp add: register_def disjoint_scopes_def)
  next
    case True
    with N call have "rid result = gid (code hk) (mods hk)"
      unfolding reports_computed_id_def by (metis fst_conv)
    then have r: "rid result = hk_id hk" using hk by (simp add: id_computed_id)
    show ?thesis
      using \<open>\<not> (obj_get (locals s) (hk_id hk) \<noteq> None \<or> obj_get (globals s) (hk_id hk) \<noteq> None)\<close>
        call True r d fresh
      by (simp add: register_def disjoint_scopes_def keys_obj_set)
  qed
qed

lemma disjoint_unregister:
  assumes d: "disjoint_scopes s"
  shows "disjoint_scopes (unregister N hk s)"
proof -
  obtain result n' where call: "hm_unregister N (mods hk) (code hk) (native s) = (result, n')"
    by (cases "hm_unregister N (mods hk) (code hk) (native s)")
  show ?thesis using d call
    by (auto simp: unregister_def disjoint_scopes_def keys_obj_delete)
qed

lemma register_inv:
  assumes "reports_computed_id gid N" and "scopes_inv gid s" and "id_computed gid hk"
  shows "scopes_inv gid (snd (register N hk g s))"
  using assms disjoint_register [of gid N s hk g] stored_register [of N hk g s]
  unfolding scopes_inv_def by blast

lemma unregister_inv:
  assumes "scopes_inv gid s"
  shows "scopes_inv gid (unregister N hk s)"
  using assms disjoint_unregister [of s N hk] stored_unregister [of N hk s]
  unfolding scopes_inv_def by blast

lemma fold_unregister_inv:
  "scopes_inv gid s \<Longrightarrow> scopes_inv gid (fold (unregister N) hks s)"
  by (induction hks arbitrary: s) (simp_all add: unregister_inv)

lemma clearLocals_inv: "scopes_inv gid s \<Longrightarrow> scopes_inv gid (clearLocals N s)"
  by (simp add: clearLocals_def fold_unregister_inv)

lemma registerEach_inv:
  "reports_computed_id gid N \<Longrightarrow> scopes_inv gid s \<Longrightarrow> list_all (id_computed gid) hks \<Longrightarrow>
   scopes_inv gid (snd (registerEach N hks s))"
proof (induction hks arbitrary: s)
  case Nil
  then show ?case by simp
next
  case (Cons hk hks)
  obtain r s' where step: "register N hk False s = (r, s')"
    by (cases "register N hk False s")
  from Cons.prems have "scopes_inv gid (snd (register N hk False s))"
    by (simp add: register_inv)
  with step have s': "scopes_inv gid s'" by simp
  show ?case
  proof (cases r)
    case Ok
    with step Cons.IH [OF Cons.prems(1) s'] Cons.prems(3) show ?thesis by simp
  next
    case (Threw e)
    with step s' show ?thesis by simp
  qed
qed

lemma scopes_inv_cong:
  "globals s' = globals s \<Longrightarrow> locals s' = locals s \<Longrightarrow> root s' = root s \<Longrightarrow>
   scopes_inv gid s' = scopes_inv gid s"
  by (simp add: scopes_inv_def disjoint_scopes_def stored_def)

lemma scopes_inv_snapshot:
  "scopes_inv gid s \<Longrightarrow> scopes_inv gid (s\<lparr>root := Some (Object_values (locals s))\<rparr>)"
  by (auto simp: scopes_inv_def disjoint_scopes_def stored_def)

lemma scopes_inv_at_root:
  "scopes_inv gid s \<Longrightarrow> scopes_inv gid (s\<lparr>root := None, timeoutRecoverRoot := t\<rparr>)"
  by (auto simp: scopes_inv_def disjoint_scopes_def stored_def)

lemma withSnapshot_inv:
  assumes N: "reports_computed_id gid N" and inv: "scopes_inv gid s"
    and hks: "list_all (id_computed gid) hks"
  shows "scopes_inv gid (snd (withSnapshot N hks t s))"
proof -
  define s1 where "s1 = (if timeoutRecoverRoot s \<noteq> None then clearInterval (timeoutRecoverRoot s) s else s)"
  define s2 where "s2 = (if root s1 = None then s1\<lparr>root := Some (Object_values (locals s1))\<rparr> else s1)"
  define s3 where "s3 = clearLocals N s2"
  have "scopes_inv gid s1 = scopes_inv gid s"
    unfolding s1_def by (intro scopes_inv_cong) (simp_all add: clearInterval_def split: option.splits)
  with inv have i1: "scopes_inv gid s1" by simp
  then have i2: "scopes_inv gid s2"
    unfolding s2_def by (simp add: scopes_inv_snapshot)
  then have i3: "scopes_inv gid s3"
    unfolding s3_def by (rule clearLocals_inv)
  obtain r s4 where reg: "registerEach N hks s3 = (r, s4)"
    by (cases "registerEach N hks s3")
  from registerEach_inv [OF N i3 hks] reg have i4: "scopes_inv gid s4" by simp
  have w: "withSnapshot N hks t s =
      (case r of Threw e \<Rightarrow> (Threw e, s4)
       | Ok \<Rightarrow> if \<not> isNaN t
           then (case setTimeout (Math_min t (Fin 2147483647)) s4 of
                   (h, s5) \<Rightarrow> (Ok, s5\<lparr>timeoutRecoverRoot := Some h\<rparr>))
           else (Ok, s4))"
    using reg unfolding withSnapshot_def s1_def [symmetric] Let_def s2_def [symmetric] s3_def [symmetric]
    by (simp split: outcome.splits)
  have "scopes_inv gid (snd (setTimeout d s4)\<lparr>timeoutRecoverRoot := Some h\<rparr>) = scopes_inv gid s4" for d h
    by (intro scopes_inv_cong) (simp_all add: setTimeout_def)
  with i4 show ?thesis unfolding w
    by (simp split: outcome.splits prod.splits add: setTimeout_def)
qed

lemma recoverRoot_inv:
  assumes N: "reports_computed_id gid N" and inv: "scopes_inv gid s"
  shows "scopes_inv gid (snd (recoverRoot N s))"
proof (cases "root s")
  case None
  then show ?thesis using inv by (simp add: recoverRoot_def)
next
  case (Some r)
  define s1 where "s1 = clearInterval (timeoutRecoverRoot s) s"
  define s2 where "s2 = clearLocals N s1"
  from Some inv have r: "list_all (id_computed gid) r"
    by (simp add: scopes_inv_def stored_def list_all_iff)
  have "scopes_inv gid s1 = scopes_inv gid s"
    unfolding s1_def by (intro scopes_inv_cong) (simp_all add: clearInterval_def split: option.splits)
  with inv have "scopes_inv gid s1" by simp
  then have i2: "scopes_inv gid s2"
    unfolding s2_def by (rule clearLocals_inv)
  obtain res s3 where reg: "registerEach N r s2 = (res, s3)"
    by (cases "registerEach N r s2")
  from registerEach_inv [OF N i2 r] reg have i3: "scopes_inv gid s3" by simp
  have "recoverRoot N s =
      (case res of Threw e \<Rightarrow> (Threw e, s3)
       | Ok \<Rightarrow> (Ok, s3\<lparr>root := None, timeoutRecoverRoot := None\<rparr>))"
    using reg Some unfolding recoverRoot_def Let_def s1_def [symmetric] s2_def [symmetric]
    by (simp split: outcome.splits)
  then show ?thesis using i3 scopes_inv_at_root [OF i3, of None]
    by (simp split: outcome.splits)
qed

lemma fireSubactions_inv:
  assumes "reports_computed_id gid N" and "scopes_inv gid s" and "id_computed gid this"
  shows "scopes_inv gid (snd (fireSubactions N this s))"
  using assms by (simp add: fireSubactions_def recoverRoot_inv withSnapshot_inv id_computed_subactions)

lemma fire_inv:
  assumes N: "reports_computed_id gid N" and inv: "scopes_inv gid s" and hk: "id_computed gid this"
  shows "scopes_inv gid (snd (fire N t1 t2 this s))"
proof -
  define s0 where "s0 = s\<lparr>lastFire := never, fired := fired s @ [u_action this]\<rparr>"
  have "scopes_inv gid s0 = scopes_inv gid s"
    unfolding s0_def by (intro scopes_inv_cong) simp_all
  with inv have "scopes_inv gid s0" by simp
  then have a: "scopes_inv gid (snd (fireSubactions N this s0))"
    using N hk by (simp add: fireSubactions_inv)
  have b: "scopes_inv gid (s'\<lparr>lastHotKey := x\<rparr>) = scopes_inv gid s'" for s' :: "'a mstate" and x
    by (intro scopes_inv_cong) simp_all
  have c: "scopes_inv gid (s\<lparr>lastFire := t2, lastHotKey := x\<rparr>)" for x
    using inv scopes_inv_cong [of "s\<lparr>lastFire := t2, lastHotKey := x\<rparr>" s gid] by simp
  obtain res s' where fs: "fireSubactions N this s0 = (res, s')"
    by (cases "fireSubactions N this s0")
  with a have "scopes_inv gid s'" by simp
  then show ?thesis
    using b c fs unfolding fire_def s0_def [symmetric]
    by (cases res) simp_all
qed

lemma handleEvent_inv:
  assumes N: "reports_computed_id gid N" and inv: "scopes_inv gid s"
  shows "scopes_inv gid (snd (handleEvent N t1 t2 event s))"
proof -
  have "id_computed gid hk"
    if "obj_get (globals s) (ev_id event) = Some hk \<or> obj_get (locals s) (ev_id event) = Some hk" for hk
    using that inv obj_get_Some_value [of "globals s" "ev_id event" hk]
      obj_get_Some_value [of "locals s" "ev_id event" hk]
    by (auto simp: scopes_inv_def stored_def)
  then show ?thesis
    using inv fire_inv [OF N inv]
    by (simp add: handleEvent_def Let_def split: option.splits)
qed

lemma timerExpires_inv:
  assumes N: "reports_computed_id gid N" and inv: "scopes_inv gid s"
  shows "scopes_inv gid (snd (timerExpires N h s))"
proof -
  have "scopes_inv gid (s\<lparr>timers := x\<rparr>)" for x
    using inv scopes_inv_cong [of "s\<lparr>timers := x\<rparr>" s gid] by simp
  then show ?thesis using inv by (simp add: timerExpires_def recoverRoot_inv [OF N])
qed

lemma init_inv: "scopes_inv gid (init n)"
  by (simp add: scopes_inv_def disjoint_scopes_def stored_def init_def keys_def Object_values_def)

lemma unregister_coop:
  assumes "cooperative gid N" and "id_computed gid hk"
  shows "unregister N hk s = s\<lparr>native := snd (hm_unregister N (mods hk) (code hk) (native s)),
           locals := obj_delete (hk_id hk) (locals s), globals := obj_delete (hk_id hk) (globals s)\<rparr>"
proof -
  obtain result n' where call: "hm_unregister N (mods hk) (code hk) (native s) = (result, n')"
    by (cases "hm_unregister N (mods hk) (code hk) (native s)")
  from assms(1) have "fst (hm_unregister N (mods hk) (code hk) (native s)) =
      \<lparr>isOk = True, rid = gid (code hk) (mods hk)\<rparr>"
    unfolding cooperative_def by blast
  with call id_computed_id [OF assms(2)] have "result = \<lparr>isOk = True, rid = hk_id hk\<rparr>" by simp
  with call show ?thesis by (simp add: unregister_def)
qed

lemma filter_obj_delete:
  "filter (\<lambda>p. fst p \<notin> hk_id ` set hks) (obj_delete (hk_id hk) m) =
   filter (\<lambda>p. fst p \<notin> hk_id ` set (hk # hks)) m"
  by (induction m) (auto simp: obj_delete_def)

lemma fold_unregister_coop:
  assumes N: "cooperative gid N"
  shows "list_all (id_computed gid) hks \<Longrightarrow>
         fold (unregister N) hks s = s\<lparr>native := released N hks (native s),
           locals := filter (\<lambda>p. fst p \<notin> hk_id ` set hks) (locals s),
           globals := filter (\<lambda>p. fst p \<notin> hk_id ` set hks) (globals s)\<rparr>"
proof (induction hks arbitrary: s)
  case Nil
  show ?case by (simp add: released_def)
next
  case (Cons hk hks)
  let ?s = "s\<lparr>native := snd (hm_unregister N (mods hk) (code hk) (native s)),
           locals := obj_delete (hk_id hk) (locals s), globals := obj_delete (hk_id hk) (globals s)\<rparr>"
  from Cons.prems have "id_computed gid hk" by simp
  then have step: "unregister N hk s = ?s"
    using N by (rule unregister_coop [rotated])
  have rest: "list_all (id_computed gid) hks" using Cons.prems by simp
  have "fold (unregister N) (hk # hks) s = fold (unregister N) hks ?s"
    using step by simp
  also have "\<dots> = ?s\<lparr>native := released N hks (native ?s),
           locals := filter (\<lambda>p. fst p \<notin> hk_id ` set hks) (locals ?s),
           globals := filter (\<lambda>p. fst p \<notin> hk_id ` set hks) (globals ?s)\<rparr>"
    by (rule Cons.IH [OF rest])
  also have "\<dots> = s\<lparr>native := released N (hk # hks) (native s),
           locals := filter (\<lambda>p. fst p \<notin> hk_id ` set (hk # hks)) (locals s),
           globals := filter (\<lambda>p. fst p \<notin> hk_id ` set (hk # hks)) (globals s)\<rparr>"
    unfolding filter_obj_delete [symmetric] by (simp add: released_def)
  finally show ?case .
qed

lemma keyed_keys:
  assumes "keyed gid m"
  shows "map hk_id (Object_values m) = map fst m"
proof -
  from assms have "\<forall>p \<in> set m. hk_id (snd p) = fst p"
    unfolding keyed_def list_all_iff by blast
  then show ?thesis unfolding Object_values_def by simp
qed

lemma keyed_values:
  assumes "keyed gid m"
  shows "list_all (id_computed gid) (Object_values m)"
  using assms unfolding keyed_def list_all_iff Object_values_def set_map by blast

lemma filter_own_keys: "filter (\<lambda>p. fst p \<notin> keys m) m = []"
  by (simp add: filter_empty_conv keys_def)

lemma filter_other_keys: "keys g \<inter> K = {} \<Longrightarrow> filter (\<lambda>p. fst p \<notin> K) g = g"
proof (induction g)
  case Nil
  show ?case by simp
next
  case (Cons p g)
  then have "fst p \<notin> K" "keys g \<inter> K = {}" by (auto simp: keys_def)
  with Cons.IH show ?case by simp
qed

lemma clearLocals_coop:
  assumes N: "cooperative gid N" and k: "keyed gid (locals s)" and d: "disjoint_scopes s"
  shows "clearLocals N s = s\<lparr>native := released N (Object_values (locals s)) (native s), locals := []\<rparr>"
proof -
  have "set (map hk_id (Object_values (locals s))) = set (map fst (locals s))"
    using keyed_keys [OF k] by simp
  then have ids: "hk_id ` set (Object_values (locals s)) = keys (locals s)"
    by (simp add: keys_def)
  have g: "filter (\<lambda>p. fst p \<notin> keys (locals s)) (globals s) = globals s"
    using d by (intro filter_other_keys) (simp add: disjoint_scopes_def)
  have "clearLocals N s = s\<lparr>native := released N (Object_values (locals s)) (native s),
           locals := filter (\<lambda>p. fst p \<notin> keys (locals s)) (locals s),
           globals := filter (\<lambda>p. fst p \<notin> keys (locals s)) (globals s)\<rparr>"
    unfolding clearLocals_def fold_unregister_coop [OF N keyed_values [OF k]] ids ..
  then show ?thesis
    unfolding g filter_own_keys by simp
qed

lemma register_coop:
  assumes "cooperative gid N" and "id_computed gid hk"
    and "hk_id hk \<notin> keys (locals s)" and "hk_id hk \<notin> keys (globals s)"
  shows "register N hk False s = (Ok, s\<lparr>native := snd (hm_register N (mods hk) (code hk) (native s)),
           locals := obj_set (hk_id hk) hk (locals s)\<rparr>)"
proof -
  obtain result n' where call: "hm_register N (mods hk) (code hk) (native s) = (result, n')"
    by (cases "hm_register N (mods hk) (code hk) (native s)")
  from assms(1) have "fst (hm_register N (mods hk) (code hk) (native s)) =
      \<lparr>isOk = True, rid = gid (code hk) (mods hk)\<rparr>"
    unfolding cooperative_def by blast
  with call id_computed_id [OF assms(2)] have "result = \<lparr>isOk = True, rid = hk_id hk\<rparr>" by simp
  with call assms(3,4) show ?thesis by (simp add: register_def obj_get_None)
qed

lemma set_obj_set_fresh:
  assumes "k \<notin> keys m"
  shows "set (obj_set k v m) = insert (k, v) (set m)"
proof
  show "set (obj_set k v m) \<subseteq> insert (k, v) (set m)" by (rule set_obj_set_sub)
  have "p \<in> set (obj_set k v m)" if "p \<in> set m" for p
  proof -
    from that assms have "fst p \<noteq> k" by (auto simp: keys_def)
    with that show ?thesis by (rule obj_set_keeps)
  qed
  then show "insert (k, v) (set m) \<subseteq> set (obj_set k v m)"
    using obj_set_mem [of k v m] by auto
qed


lemma set_placed:
  "distinct (map hk_id hks) \<Longrightarrow> hk_id ` set hks \<inter> keys m = {} \<Longrightarrow>
   set (placed hks m) = set m \<union> entries hks"
proof (induction hks arbitrary: m)
  case Nil
  show ?case by (simp add: placed_def entries_def)
next
  case (Cons hk hks)
  from Cons.prems have fresh: "hk_id hk \<notin> keys m" by simp
  have "hk_id ` set hks \<inter> keys (obj_set (hk_id hk) hk m) = {}"
    using Cons.prems by (auto simp: keys_obj_set)
  with Cons.IH [of "obj_set (hk_id hk) hk m"] Cons.prems
  have "set (placed hks (obj_set (hk_id hk) hk m)) = set (obj_set (hk_id hk) hk m) \<union> entries hks"
    by simp
  then show ?case using fresh
    by (simp add: placed_def set_obj_set_fresh entries_def)
qed

lemma registerEach_coop:
  assumes N: "cooperative gid N"
  shows "list_all (id_computed gid) hks \<Longrightarrow> distinct (map hk_id hks) \<Longrightarrow>
    hk_id ` set hks \<inter> (keys (locals s) \<union> keys (globals s)) = {} \<Longrightarrow>
    registerEach N hks s = (Ok, s\<lparr>native := captured N hks (native s), locals := placed hks (locals s)\<rparr>)"
proof (induction hks arbitrary: s)
  case Nil
  show ?case by (simp add: captured_def placed_def)
next
  case (Cons hk hks)
  let ?s = "s\<lparr>native := snd (hm_register N (mods hk) (code hk) (native s)),
           locals := obj_set (hk_id hk) hk (locals s)\<rparr>"
  from Cons.prems have fresh: "hk_id hk \<notin> keys (locals s)" "hk_id hk \<notin> keys (globals s)" by auto
  from Cons.prems have "id_computed gid hk" by simp
  then have step: "register N hk False s = (Ok, ?s)"
    using fresh by (rule register_coop [OF N])
  have rest: "list_all (id_computed gid) hks" "distinct (map hk_id hks)"
    using Cons.prems by simp_all
  have "hk_id ` set hks \<inter> (keys (locals ?s) \<union> keys (globals ?s)) = {}"
    using Cons.prems(2,3) by (auto simp: keys_obj_set)
  with Cons.IH [of ?s] rest
  have "registerEach N hks ?s = (Ok, ?s\<lparr>native := captured N hks (native ?s), locals := placed hks (locals ?s)\<rparr>)"
    by blast
  then show ?case using step by (simp add: captured_def placed_def)
qed




lemma withSnapshot_coop:
  assumes N: "cooperative gid N" and k: "keyed gid (locals s)" and d: "disjoint_scopes s"
    and c: "list_all (id_computed gid) hks" and dc: "distinct (map hk_id hks)"
    and g: "hk_id ` set hks \<inter> keys (globals s) = {}"
  shows "withSnapshot N hks t s = (Ok,
     s\<lparr>native := captured N hks (released N (Object_values (locals s)) (native s)),
       locals := placed hks [],
       root := (case root s of None \<Rightarrow> Some (Object_values (locals s)) | Some r \<Rightarrow> Some r),
       timeoutRecoverRoot := (if isNaN t then timeoutRecoverRoot s else Some (nextTimer s)),
       timers := (if isNaN t then timers (clearInterval (timeoutRecoverRoot s) s)
                  else timers (clearInterval (timeoutRecoverRoot s) s) @
                       [(nextTimer s, Math_min t (Fin 2147483647))]),
       nextTimer := (if isNaN t then nextTimer s else Suc (nextTimer s))\<rparr>)"
proof -
  define s1 where "s1 = (if timeoutRecoverRoot s \<noteq> None then clearInterval (timeoutRecoverRoot s) s else s)"
  define s2 where "s2 = (if root s1 = None then s1\<lparr>root := Some (Object_values (locals s1))\<rparr> else s1)"
  define s3 where "s3 = clearLocals N s2"
  have s1: "s1 = clearInterval (timeoutRecoverRoot s) s"
    unfolding s1_def by (simp add: clearInterval_def)
  have s2: "s2 = s1\<lparr>root := (case root s of None \<Rightarrow> Some (Object_values (locals s)) | Some r \<Rightarrow> Some r)\<rparr>"
    unfolding s2_def s1 by (simp add: clearInterval_def split: option.splits)
  have l2: "locals s2 = locals s" "globals s2 = globals s" "native s2 = native s"
    unfolding s2 s1 by (simp_all add: clearInterval_def split: option.splits)
  have "keyed gid (locals s2)" "disjoint_scopes s2"
    using k d by (simp_all add: l2 disjoint_scopes_def)
  then have s3: "s3 = s2\<lparr>native := released N (Object_values (locals s)) (native s), locals := []\<rparr>"
    unfolding s3_def using clearLocals_coop [OF N, of s2] by (simp add: l2)
  have "hk_id ` set hks \<inter> (keys (locals s3) \<union> keys (globals s3)) = {}"
    using g unfolding s3 by (simp add: l2 keys_def)
  from registerEach_coop [OF N c dc this]
  have r: "registerEach N hks s3 = (Ok, s3\<lparr>native := captured N hks (native s3), locals := placed hks (locals s3)\<rparr>)" .
  have "withSnapshot N hks t s =
      (if \<not> isNaN t
       then (case setTimeout (Math_min t (Fin 2147483647))
                   (s3\<lparr>native := captured N hks (native s3), locals := placed hks (locals s3)\<rparr>) of
               (h, s5) \<Rightarrow> (Ok, s5\<lparr>timeoutRecoverRoot := Some h\<rparr>))
       else (Ok, s3\<lparr>native := captured N hks (native s3), locals := placed hks (locals s3)\<rparr>))"
    using r unfolding withSnapshot_def s1_def [symmetric] Let_def s2_def [symmetric] s3_def [symmetric]
    by simp
  then show ?thesis
    unfolding s3 s2 s1 by (simp add: setTimeout_def clearInterval_def split: option.splits)
qed

lemma recoverRoot_coop:
  assumes N: "cooperative gid N" and k: "keyed gid (locals s)" and d: "disjoint_scopes s"
    and root: "root s = Some r"
    and c: "list_all (id_computed gid) r" and dc: "distinct (map hk_id r)"
    and g: "hk_id ` set r \<inter> keys (globals s) = {}"
  shows "recoverRoot N s = (Ok,
     s\<lparr>native := captured N r (released N (Object_values (locals s)) (native s)),
       locals := placed r [], root := None, timeoutRecoverRoot := None,
       timers := timers (clearInterval (timeoutRecoverRoot s) s)\<rparr>)"
proof -
  define s1 where "s1 = clearInterval (timeoutRecoverRoot s) s"
  define s2 where "s2 = clearLocals N s1"
  have l1: "locals s1 = locals s" "globals s1 = globals s" "native s1 = native s"
    unfolding s1_def by (simp_all add: clearInterval_def split: option.splits)
  have "keyed gid (locals s1)" "disjoint_scopes s1"
    using k d by (simp_all add: l1 disjoint_scopes_def)
  then have s2: "s2 = s1\<lparr>native := released N (Object_values (locals s)) (native s), locals := []\<rparr>"
    unfolding s2_def using clearLocals_coop [OF N, of s1] by (simp add: l1)
  have "hk_id ` set r \<inter> (keys (locals s2) \<union> keys (globals s2)) = {}"
    using g unfolding s2 by (simp add: l1 keys_def)
  from registerEach_coop [OF N c dc this]
  have r: "registerEach N r s2 = (Ok, s2\<lparr>native := captured N r (native s2), locals := placed r (locals s2)\<rparr>)" .
  have "recoverRoot N s = (Ok, s2\<lparr>native := captured N r (native s2), locals := placed r (locals s2),
        root := None, timeoutRecoverRoot := None\<rparr>)"
    using r root unfolding recoverRoot_def Let_def s1_def [symmetric] s2_def [symmetric] by simp
  then show ?thesis
    unfolding s2 s1_def by (simp add: clearInterval_def split: option.splits)
qed

lemma recoverRoot_at_root: "root s = None \<Longrightarrow> recoverRoot N s = (Ok, s)"
  by (simp add: recoverRoot_def)

lemma recoverRoot_completed:
  assumes "recoverRoot N s = (Ok, s')"
  shows "root s' = None"
proof (cases "root s")
  case None
  with assms show ?thesis by (simp add: recoverRoot_def)
next
  case (Some r)
  with assms show ?thesis
    by (auto simp: recoverRoot_def Let_def split: prod.splits outcome.splits)
qed

lemma untouched_refl: "untouched s s"
  by (simp add: untouched_def)

lemma untouched_trans: "untouched s s' \<Longrightarrow> untouched s' s'' \<Longrightarrow> untouched s s''"
  by (simp add: untouched_def)

lemma untouched_register: "untouched s (snd (register N hk g s))"
  by (simp add: register_def untouched_def split: prod.splits)

lemma untouched_unregister: "untouched s (unregister N hk s)"
  by (simp add: unregister_def untouched_def split: prod.splits)

lemma untouched_fold_unregister: "untouched s (fold (unregister N) hks s)"
proof (induction hks arbitrary: s)
  case Nil
  show ?case by (simp add: untouched_refl)
next
  case (Cons hk hks)
  have "untouched s (fold (unregister N) hks (unregister N hk s))"
    by (rule untouched_trans [OF untouched_unregister Cons.IH])
  then show ?case by simp
qed

lemma untouched_clearLocals: "untouched s (clearLocals N s)"
  by (simp add: clearLocals_def untouched_fold_unregister)

lemma untouched_registerEach: "untouched s (snd (registerEach N hks s))"
proof (induction hks arbitrary: s)
  case Nil
  show ?case by (simp add: untouched_refl)
next
  case (Cons hk hks)
  obtain r s' where step: "register N hk False s = (r, s')"
    by (cases "register N hk False s")
  with untouched_register [of s N hk False] have u: "untouched s s'" by simp
  show ?case
  proof (cases r)
    case Ok
    with step untouched_trans [OF u Cons.IH [of s']] show ?thesis by simp
  next
    case (Threw e)
    with step u show ?thesis by simp
  qed
qed

lemma withSnapshot_unfold:
  "withSnapshot N hks t s =
     (case registerEach N hks (clearLocals N
             ((clearInterval (timeoutRecoverRoot s) s)
                \<lparr>root := (case root s of None \<Rightarrow> Some (Object_values (locals s)) | Some r \<Rightarrow> Some r)\<rparr>)) of
        (Threw e, s4) \<Rightarrow> (Threw e, s4)
      | (Ok, s4) \<Rightarrow>
          if isNaN t then (Ok, s4)
          else (Ok, s4\<lparr>timers := timers s4 @ [(nextTimer s4, Math_min t (Fin 2147483647))],
                       nextTimer := Suc (nextTimer s4), timeoutRecoverRoot := Some (nextTimer s4)\<rparr>))"
proof -
  have a: "(if timeoutRecoverRoot s \<noteq> None then clearInterval (timeoutRecoverRoot s) s else s) =
        clearInterval (timeoutRecoverRoot s) s"
    by (simp add: clearInterval_def)
  have b: "(if root (clearInterval (timeoutRecoverRoot s) s) = None
         then (clearInterval (timeoutRecoverRoot s) s)
                \<lparr>root := Some (Object_values (locals (clearInterval (timeoutRecoverRoot s) s)))\<rparr>
         else clearInterval (timeoutRecoverRoot s) s) =
        (clearInterval (timeoutRecoverRoot s) s)
                \<lparr>root := (case root s of None \<Rightarrow> Some (Object_values (locals s)) | Some r \<Rightarrow> Some r)\<rparr>"
    by (simp add: clearInterval_def split: option.splits)
  show ?thesis
    unfolding withSnapshot_def Let_def a b
    by (simp add: setTimeout_def split: prod.splits outcome.splits)
qed

lemma recoverRoot_unfold:
  "recoverRoot N s =
     (case root s of None \<Rightarrow> (Ok, s)
      | Some r \<Rightarrow>
         (case registerEach N r (clearLocals N (clearInterval (timeoutRecoverRoot s) s)) of
            (Threw e, s3) \<Rightarrow> (Threw e, s3)
          | (Ok, s3) \<Rightarrow> (Ok, s3\<lparr>root := None, timeoutRecoverRoot := None\<rparr>)))"
  by (simp add: recoverRoot_def Let_def split: option.splits)

lemma untouched_context_switch:
  "untouched s0 (snd (registerEach N hks (clearLocals N s0)))"
  by (rule untouched_trans [OF untouched_clearLocals untouched_registerEach])

lemma same_stroke_withSnapshot: "same_stroke_state s (snd (withSnapshot N hks t s))"
proof -
  define s0 where "s0 = (clearInterval (timeoutRecoverRoot s) s)
     \<lparr>root := (case root s of None \<Rightarrow> Some (Object_values (locals s)) | Some r \<Rightarrow> Some r)\<rparr>"
  obtain r s4 where reg: "registerEach N hks (clearLocals N s0) = (r, s4)"
    by (cases "registerEach N hks (clearLocals N s0)")
  with untouched_context_switch [of s0 N hks] have "untouched s0 s4" by simp
  then have "same_stroke_state s s4"
    unfolding s0_def by (simp add: untouched_def same_stroke_state_def clearInterval_def split: option.splits)
  then show ?thesis
    unfolding withSnapshot_unfold s0_def [symmetric] reg
    by (cases r) (simp_all add: same_stroke_state_def)
qed

lemma same_stroke_recoverRoot: "same_stroke_state s (snd (recoverRoot N s))"
proof (cases "root s")
  case None
  then show ?thesis by (simp add: recoverRoot_unfold same_stroke_state_def)
next
  case (Some rt)
  define s0 where "s0 = clearInterval (timeoutRecoverRoot s) s"
  obtain r s3 where reg: "registerEach N rt (clearLocals N s0) = (r, s3)"
    by (cases "registerEach N rt (clearLocals N s0)")
  with untouched_context_switch [of s0 N rt] have "untouched s0 s3" by simp
  then have "same_stroke_state s s3"
    unfolding s0_def by (simp add: untouched_def same_stroke_state_def clearInterval_def split: option.splits)
  then show ?thesis
    unfolding recoverRoot_unfold Some s0_def [symmetric] using reg
    by (cases r) (simp_all add: same_stroke_state_def)
qed

lemma same_stroke_fireSubactions: "same_stroke_state s (snd (fireSubactions N this s))"
  by (simp add: fireSubactions_def same_stroke_withSnapshot same_stroke_recoverRoot)

lemma fire_when_firing:
  assumes "u_stroke D = Single \<or> (lastHotKey s = Some (ref D) \<and> js_le (js_minus t1 (lastFire s)) (u_strokeTimeout D))"
  shows "fire N t1 t2 D s =
           (case fireSubactions N D (s\<lparr>lastFire := never, fired := fired s @ [u_action D]\<rparr>) of
              (Threw e, s') \<Rightarrow> (Threw e, s')
            | (Ok, s') \<Rightarrow> (Ok, s'\<lparr>lastHotKey := Some (ref D)\<rparr>))"
    and "fired (snd (fire N t1 t2 D s)) = fired s @ [u_action D]"
    and "lastFire (snd (fire N t1 t2 D s)) = never"
    and "fst (fire N t1 t2 D s) = Ok \<Longrightarrow> lastHotKey (snd (fire N t1 t2 D s)) = Some (ref D)"
proof -
  define s0 where "s0 = s\<lparr>lastFire := never, fired := fired s @ [u_action D]\<rparr>"
  show eq: "fire N t1 t2 D s =
           (case fireSubactions N D (s\<lparr>lastFire := never, fired := fired s @ [u_action D]\<rparr>) of
              (Threw e, s') \<Rightarrow> (Threw e, s')
            | (Ok, s') \<Rightarrow> (Ok, s'\<lparr>lastHotKey := Some (ref D)\<rparr>))"
    using assms unfolding fire_def by (simp only: if_True)
  obtain r s' where fs: "fireSubactions N D s0 = (r, s')"
    by (cases "fireSubactions N D s0")
  with same_stroke_fireSubactions [of s0 N D] have fr: "fired s' = fired s0" "lastFire s' = lastFire s0"
    by (simp_all add: same_stroke_state_def)
  show "fired (snd (fire N t1 t2 D s)) = fired s @ [u_action D]"
    unfolding eq s0_def [symmetric] fs using fr by (cases r) (simp_all add: s0_def)
  show "lastFire (snd (fire N t1 t2 D s)) = never"
    unfolding eq s0_def [symmetric] fs using fr by (cases r) (simp_all add: s0_def)
  show "lastHotKey (snd (fire N t1 t2 D s)) = Some (ref D)" if "fst (fire N t1 t2 D s) = Ok"
    using that unfolding eq s0_def [symmetric] fs by (cases r) simp_all
qed

lemma fire_when_not_firing:
  assumes "u_stroke D = Double" and "lastHotKey s \<noteq> Some (ref D) \<or> \<not> js_le (js_minus t1 (lastFire s)) (u_strokeTimeout D)"
  shows "fire N t1 t2 D s = (Ok, s\<lparr>lastFire := t2, lastHotKey := Some (ref D)\<rparr>)"
  using assms unfolding fire_def by auto

lemma handleEvent_routes:
  assumes "obj_get (globals s) i = Some D \<or> (obj_get (globals s) i = None \<and> obj_get (locals s) i = Some D)"
  shows "handleEvent N t1 t2 \<lparr>ev_id = i, eventType = Pressed\<rparr> s = fire N t1 t2 D s"
  using assms by (auto simp: handleEvent_def)

lemma one_timer_cases:
  "one_timer s = (timers s = [] \<or> (\<exists>h d. timers s = [(h, d)] \<and> timeoutRecoverRoot s = Some h))"
  unfolding one_timer_def
  by (cases "(timers s, timeoutRecoverRoot s)" rule: only_timer.cases) auto


lemma clearInterval_one_timer:
  "one_timer s \<Longrightarrow> timers (clearInterval (timeoutRecoverRoot s) s) = []"
  unfolding one_timer_cases by (auto simp: clearInterval_def split: option.splits)



lemma recoverRoot_timers:
  assumes one: "one_timer s" and rt: "root s \<noteq> None"
  shows "timers (snd (recoverRoot N s)) = []"
proof -
  from rt obtain rs where Some: "root s = Some rs" by auto
  define s0 where "s0 = clearInterval (timeoutRecoverRoot s) s"
  obtain r s3 where reg: "registerEach N rs (clearLocals N s0) = (r, s3)"
    by (cases "registerEach N rs (clearLocals N s0)")
  with untouched_context_switch [of s0 N rs] have u: "untouched s0 s3" by simp
  have "timers s0 = []" unfolding s0_def by (rule clearInterval_one_timer [OF one])
  with u have "timers s3 = []" by (simp add: untouched_def)
  then show ?thesis
    unfolding recoverRoot_unfold Some s0_def [symmetric] using reg by (cases r) simp_all
qed











lemma withSnapshot_root:
  "root (snd (withSnapshot N hks t s)) =
     (case root s of None \<Rightarrow> Some (Object_values (locals s)) | Some r \<Rightarrow> Some r)"
proof -
  define s0 where "s0 = (clearInterval (timeoutRecoverRoot s) s)
     \<lparr>root := (case root s of None \<Rightarrow> Some (Object_values (locals s)) | Some r \<Rightarrow> Some r)\<rparr>"
  obtain r s4 where reg: "registerEach N hks (clearLocals N s0) = (r, s4)"
    by (cases "registerEach N hks (clearLocals N s0)")
  with untouched_context_switch [of s0 N hks] have "root s4 = root s0"
    by (simp add: untouched_def)
  then show ?thesis
    unfolding withSnapshot_unfold s0_def [symmetric] reg
    by (cases r) (simp_all add: s0_def)
qed

lemma recoverRoot_idem:
  assumes "recoverRoot N s = (Ok, s')"
  shows "recoverRoot N s' = (Ok, s')"
  using recoverRoot_completed [OF assms] by (rule recoverRoot_at_root)

lemma recoverRoot_handle_cleared:
  assumes "recoverRoot N s = (Ok, s')" and "root s \<noteq> None"
  shows "timeoutRecoverRoot s' = None"
  using assms
  by (auto simp: recoverRoot_unfold split: prod.splits outcome.splits)


lemma descended_eq:
  "descended = \<lparr>native = 4, globals = [(78, keyN)], locals = [(66, keyB)], root = Some [ctrlA],
     timeoutRecoverRoot = Some 0, timers = [(0, Fin 1000)], nextTimer = 1,
     lastHotKey = Some 1, lastFire = never, fired = [1]\<rparr>"
  unfolding descended_def by (simp add: sample_defs op_defs)

lemma at_root_eq:
  "at_root = \<lparr>native = 1, globals = [], locals = [(2065, ctrlA)], root = None,
     timeoutRecoverRoot = None, timers = [], nextTimer = 0,
     lastHotKey = None, lastFire = never, fired = []\<rparr>"
  unfolding at_root_def by (simp add: sample_defs op_defs)

lemma clash_state_eq:
  "clash_state = \<lparr>native = 2, globals = [(27, escape)], locals = [(2069, ctrlE)], root = None,
     timeoutRecoverRoot = None, timers = [], nextTimer = 0,
     lastHotKey = None, lastFire = never, fired = []\<rparr>"
  unfolding clash_state_def by (simp add: sample_defs op_defs)

lemma awaiting_eq:
  "awaiting = \<lparr>native = 0, globals = [], locals = [], root = None,
     timeoutRecoverRoot = None, timers = [], nextTimer = 0,
     lastHotKey = Some 7, lastFire = 1000, fired = []\<rparr>"
  unfolding awaiting_def by (simp add: sample_defs op_defs)

lemma after_double_eq:
  "after_double = \<lparr>native = 0, globals = [], locals = [], root = None,
     timeoutRecoverRoot = None, timers = [], nextTimer = 0,
     lastHotKey = Some 7, lastFire = never, fired = [7]\<rparr>"
  unfolding after_double_def by (simp add: sample_defs op_defs)

lemma stuck_eq:
  "stuck = \<lparr>native = 6, globals = [(2065, ctrlA_global)], locals = [(66, keyB)],
     root = Some [keyF2, ctrlA],
     timeoutRecoverRoot = Some 0, timers = [(0, Fin 1000)], nextTimer = 1,
     lastHotKey = Some 1, lastFire = never, fired = [1]\<rparr>"
  unfolding stuck_def by (simp add: sample_defs op_defs)

lemma counting_core_cooperative: "cooperative sample_getHotkeyId counting_core"
  by (simp add: cooperative_def counting_core_def)

lemma counting_core_reports: "reports_computed_id sample_getHotkeyId counting_core"
  by (simp add: reports_computed_id_def counting_core_def)

lemma sample_ids:
  "id_computed sample_getHotkeyId keyB" "id_computed sample_getHotkeyId ctrlA"
  "id_computed sample_getHotkeyId keyN" "id_computed sample_getHotkeyId ctrlA_again"
  by (simp_all add: sample_defs)

lemma register_stores:
  assumes "obj_get (locals s) (hk_id hk) = None" and "obj_get (globals s) (hk_id hk) = None"
    and "hm_register N (mods hk) (code hk) (native s) = (\<lparr>isOk = True, rid = hk_id hk\<rparr>, n')"
  shows "obj_get (if g then globals (snd (register N hk g s)) else locals (snd (register N hk g s)))
           (hk_id hk) = Some hk"
  using assms by (simp add: register_def obj_get_set)

lemma register_duplicate:
  assumes "obj_get (locals s) (hk_id D1) = Some D1 \<or> obj_get (globals s) (hk_id D1) = Some D1"
    and "hk_id D2 = hk_id D1"
  shows "register N D2 isGlobal s = (Threw Duplicated_hotkey, s)"
  using assms by (auto simp: register_def)

lemma ctrlA_built: "subaction keyB (action 1 (hotKey sample_getHotkeyId 1 [2] 65)) = Inr ctrlA"
  by (simp add: sample_defs)

lemma ctrlE_built: "subaction escape_child (action 8 (hotKey sample_getHotkeyId 8 [2] 69)) = Inr ctrlE"
  by (simp add: sample_defs)


section \<open>The claims\<close>

text \<open>
  Claim C1. A hotkey without subactions that fires recovers the root whatever its
  \<open>_backToRoot\<close> flag says: \<open>fireSubactions\<close> never reads the flag. Here N, built with
  \<open>backToRoot(false)\<close> and without subactions, is pressed while the context of B is
  active with Ctrl+A in the root snapshot; the snapshot is restored and cleared.
\<close>

theorem backToRoot_false_still_recovers:
  "u_backToRoot keyN = False \<and> u_subactions keyN = [] \<and> root descended = Some [ctrlA] \<and>
   handleEvent counting_core 9000 9000 (pressed keyN) descended =
     (Ok, descended\<lparr>native := 6, locals := [(2065, ctrlA)], root := None,
          timeoutRecoverRoot := None, timers := [], lastHotKey := Some 3, fired := [1, 3]\<rparr>)"
  unfolding descended_eq by (simp add: sample_defs op_defs)

text \<open>
  Claim C2, amended. The elapsed time is \<open>Date.now() - HotKey.lastFire\<close> as the code
  computes it in doubles; it is the exact difference whenever that is below \<open>2^53\<close> in
  absolute value. For a Double-stroke hotkey D with stroke timeout T, a clock reading and
  a stamp that are time values:
  a press while D is not the last pressed hotkey does not fire and makes D pending with
  the clock reading of the else branch; a press while D is the last pressed hotkey and
  the elapsed time is at most T (boundary included) calls the action once and resets the
  stamp to "never"; a press while D is the last pressed hotkey and the elapsed time is
  not within T does not fire and becomes the new pending stroke; and a press while the
  stamp is "never" does not fire as long as T is finite and smaller than the elapsed
  time since "never", which for a clock reading from 0 to 367199254740991 is the
  reading plus 8640000000000000.
\<close>

theorem double_stroke_detection:
  assumes "u_stroke D = Double" and "time_value t1" and "time_value (lastFire s)"
  shows "(lastHotKey s \<noteq> Some (ref D) \<longrightarrow>
            fire N t1 t2 D s = (Ok, s\<lparr>lastFire := t2, lastHotKey := Some (ref D)\<rparr>)) \<and>
         (lastHotKey s = Some (ref D) \<and> js_le (js_minus t1 (lastFire s)) (u_strokeTimeout D) \<longrightarrow>
            fire N t1 t2 D s =
              (case fireSubactions N D (s\<lparr>lastFire := never, fired := fired s @ [u_action D]\<rparr>) of
                 (Threw e, s') \<Rightarrow> (Threw e, s')
               | (Ok, s') \<Rightarrow> (Ok, s'\<lparr>lastHotKey := Some (ref D)\<rparr>)) \<and>
            fired (snd (fire N t1 t2 D s)) = fired s @ [u_action D] \<and>
            lastFire (snd (fire N t1 t2 D s)) = never) \<and>
         (lastHotKey s = Some (ref D) \<and> \<not> js_le (js_minus t1 (lastFire s)) (u_strokeTimeout D) \<longrightarrow>
            fire N t1 t2 D s = (Ok, s\<lparr>lastFire := t2, lastHotKey := Some (ref D)\<rparr>)) \<and>
         (lastFire s = never \<and> u_strokeTimeout D = Fin q \<and> q < of_int (js_minus t1 never) \<longrightarrow>
            fire N t1 t2 D s = (Ok, s\<lparr>lastFire := t2, lastHotKey := Some (ref D)\<rparr>)) \<and>
         (lastFire s = never \<and> 0 \<le> t1 \<and> t1 < 367199254740992 \<and>
          u_strokeTimeout D = Fin q \<and> q < of_int (t1 + 8640000000000000) \<longrightarrow>
            fire N t1 t2 D s = (Ok, s\<lparr>lastFire := t2, lastHotKey := Some (ref D)\<rparr>)) \<and>
         (\<bar>t1 - lastFire s\<bar> < 9007199254740992 \<longrightarrow> js_minus t1 (lastFire s) = t1 - lastFire s)"
proof (intro conjI impI)
  assume "lastHotKey s \<noteq> Some (ref D)"
  then show "fire N t1 t2 D s = (Ok, s\<lparr>lastFire := t2, lastHotKey := Some (ref D)\<rparr>)"
    using assms(1) by (simp add: fire_when_not_firing)
next
  assume a: "lastHotKey s = Some (ref D) \<and> js_le (js_minus t1 (lastFire s)) (u_strokeTimeout D)"
  then have f: "u_stroke D = Single \<or>
      (lastHotKey s = Some (ref D) \<and> js_le (js_minus t1 (lastFire s)) (u_strokeTimeout D))"
    by simp
  show "fire N t1 t2 D s =
              (case fireSubactions N D (s\<lparr>lastFire := never, fired := fired s @ [u_action D]\<rparr>) of
                 (Threw e, s') \<Rightarrow> (Threw e, s')
               | (Ok, s') \<Rightarrow> (Ok, s'\<lparr>lastHotKey := Some (ref D)\<rparr>))"
    by (rule fire_when_firing(1) [OF f])
  show "fired (snd (fire N t1 t2 D s)) = fired s @ [u_action D]"
    by (rule fire_when_firing(2) [OF f])
  show "lastFire (snd (fire N t1 t2 D s)) = never"
    by (rule fire_when_firing(3) [OF f])
next
  assume "lastHotKey s = Some (ref D) \<and> \<not> js_le (js_minus t1 (lastFire s)) (u_strokeTimeout D)"
  then show "fire N t1 t2 D s = (Ok, s\<lparr>lastFire := t2, lastHotKey := Some (ref D)\<rparr>)"
    using assms(1) by (simp add: fire_when_not_firing)
next
  assume "lastFire s = never \<and> u_strokeTimeout D = Fin q \<and> q < of_int (js_minus t1 never)"
  then have "\<not> js_le (js_minus t1 (lastFire s)) (u_strokeTimeout D)" by simp
  then show "fire N t1 t2 D s = (Ok, s\<lparr>lastFire := t2, lastHotKey := Some (ref D)\<rparr>)"
    using assms(1) by (simp add: fire_when_not_firing)
next
  assume a: "lastFire s = never \<and> 0 \<le> t1 \<and> t1 < 367199254740992 \<and>
          u_strokeTimeout D = Fin q \<and> q < of_int (t1 + 8640000000000000)"
  then have "\<bar>t1 - never\<bar> < 9007199254740992" by (simp add: never_def)
  then have "js_minus t1 never = t1 + 8640000000000000"
    by (simp add: never_def)
  with a have "\<not> js_le (js_minus t1 (lastFire s)) (u_strokeTimeout D)" by simp
  then show "fire N t1 t2 D s = (Ok, s\<lparr>lastFire := t2, lastHotKey := Some (ref D)\<rparr>)"
    using assms(1) by (simp add: fire_when_not_firing)
next
  assume "\<bar>t1 - lastFire s\<bar> < 9007199254740992"
  then show "js_minus t1 (lastFire s) = t1 - lastFire s" by (rule js_minus_exact)
qed

theorem double_stroke_detection_witness:
  "u_stroke ctrlD = Double \<and> time_value 1000 \<and> time_value (lastFire (init (0::nat))) \<and>
   fire counting_core 1000 1000 ctrlD (init 0) = (Ok, awaiting) \<and>
   time_value 2000 \<and> time_value 2001 \<and> time_value (lastFire awaiting) \<and>
   lastHotKey awaiting = Some (ref ctrlD) \<and>
   js_le (js_minus 2000 (lastFire awaiting)) (u_strokeTimeout ctrlD) \<and>
   fired (snd (fire counting_core 2000 2000 ctrlD awaiting)) = [7] \<and>
   lastFire (snd (fire counting_core 2000 2000 ctrlD awaiting)) = never \<and>
   \<not> js_le (js_minus 2001 (lastFire awaiting)) (u_strokeTimeout ctrlD) \<and>
   fire counting_core 2001 2002 ctrlD awaiting = (Ok, awaiting\<lparr>lastFire := 2002\<rparr>) \<and>
   time_value 1000000000 \<and> time_value (lastFire after_double) \<and>
   lastFire after_double = never \<and> u_strokeTimeout ctrlD = Fin 1000 \<and>
   (1000::rat) < of_int (1000000000 + 8640000000000000) \<and>
   fire counting_core 1000000000 1000000001 ctrlD after_double =
     (Ok, after_double\<lparr>lastFire := 1000000001\<rparr>) \<and>
   u_stroke ctrlD_long = Double \<and> time_value 1000000000000001 \<and>
   lastHotKey after_double = Some (ref ctrlD_long) \<and>
   js_minus 1000000000000001 (lastFire after_double) = 9640000000000000 \<and>
   js_le (js_minus 1000000000000001 (lastFire after_double)) (u_strokeTimeout ctrlD_long) \<and>
   fired (snd (fire counting_core 1000000000000001 1000000000000001 ctrlD_long after_double)) = [7, 7]"
proof -
  have h: "u_stroke ctrlD = Double" by (simp add: sample_defs)
  have tv: "time_value 1000" "time_value 2000" "time_value 2001" "time_value 1000000000"
    "time_value 1000000000000001" "time_value (lastFire (init (0::nat)))"
    "time_value (lastFire awaiting)" "time_value (lastFire after_double)"
    unfolding awaiting_eq after_double_eq by (simp_all add: time_value_def init_def never_def)
  have a: "lastHotKey (init (0::nat)) \<noteq> Some (ref ctrlD)" by (simp add: init_def)
  have b: "lastHotKey awaiting = Some (ref ctrlD) \<and>
      js_le (js_minus 2000 (lastFire awaiting)) (u_strokeTimeout ctrlD)"
    unfolding awaiting_eq by (simp add: sample_defs)
  have c: "lastHotKey awaiting = Some (ref ctrlD) \<and>
      \<not> js_le (js_minus 2001 (lastFire awaiting)) (u_strokeTimeout ctrlD)"
    unfolding awaiting_eq by (simp add: sample_defs)
  note th1 = double_stroke_detection [OF h tv(1) tv(6), where N = counting_core and ?t2.0 = 1000]
  note th2 = double_stroke_detection [OF h tv(2) tv(7), where N = counting_core and ?t2.0 = 2000]
  note th3 = double_stroke_detection [OF h tv(3) tv(7), where N = counting_core and ?t2.0 = 2002]
  from th1 a have 1: "fire counting_core 1000 1000 ctrlD (init 0) =
      (Ok, (init 0)\<lparr>lastFire := 1000, lastHotKey := Some (ref ctrlD)\<rparr>)" by blast
  have 2: "(init (0::nat))\<lparr>lastFire := 1000, lastHotKey := Some (ref ctrlD)\<rparr> = awaiting"
    unfolding awaiting_eq by (simp add: sample_defs)
  from th2 b have 3: "fired (snd (fire counting_core 2000 2000 ctrlD awaiting)) = fired awaiting @ [u_action ctrlD]"
    "lastFire (snd (fire counting_core 2000 2000 ctrlD awaiting)) = never" by blast+
  have 4: "fired awaiting @ [u_action ctrlD] = [7]" unfolding awaiting_eq by (simp add: sample_defs)
  from th3 c have 5: "fire counting_core 2001 2002 ctrlD awaiting =
      (Ok, awaiting\<lparr>lastFire := 2002, lastHotKey := Some (ref ctrlD)\<rparr>)" by blast
  have 6: "awaiting\<lparr>lastFire := 2002, lastHotKey := Some (ref ctrlD)\<rparr> = awaiting\<lparr>lastFire := 2002\<rparr>"
    unfolding awaiting_eq by (simp add: sample_defs)
  have d: "lastFire after_double = never \<and> (0::int) \<le> 1000000000 \<and>
      (1000000000::int) < 367199254740992 \<and> u_strokeTimeout ctrlD = Fin 1000 \<and>
      (1000::rat) < of_int (1000000000 + 8640000000000000)"
    unfolding after_double_eq by (simp add: sample_defs)
  note th4 = double_stroke_detection [OF h tv(4) tv(8), where N = counting_core
      and ?t2.0 = 1000000001 and q = 1000]
  note e = th4 [THEN conjunct2, THEN conjunct2, THEN conjunct2, THEN conjunct2, THEN conjunct1,
      THEN mp, OF d]
  have 8: "after_double\<lparr>lastFire := 1000000001, lastHotKey := Some (ref ctrlD)\<rparr> =
      after_double\<lparr>lastFire := 1000000001\<rparr>"
    unfolding after_double_eq by (simp add: sample_defs)
  from e have 7: "fire counting_core 1000000000 1000000001 ctrlD after_double =
      (Ok, after_double\<lparr>lastFire := 1000000001\<rparr>)" unfolding 8 .
  have hl: "u_stroke ctrlD_long = Double" by (simp add: sample_defs)
  have r: "js_minus 1000000000000001 (lastFire after_double) = 9640000000000000"
    unfolding after_double_eq
    by (simp add: js_minus_def round53_def Let_def never_def width_sample)
  have g: "lastHotKey after_double = Some (ref ctrlD_long) \<and>
      js_le (js_minus 1000000000000001 (lastFire after_double)) (u_strokeTimeout ctrlD_long)"
    unfolding r unfolding after_double_eq by (simp add: sample_defs)
  note th5 = double_stroke_detection [OF hl tv(5) tv(8), where N = counting_core
      and ?t2.0 = 1000000000000001]
  from th5 g have "fired (snd (fire counting_core 1000000000000001 1000000000000001 ctrlD_long after_double)) =
      fired after_double @ [u_action ctrlD_long]" by blast
  then have 9: "fired (snd (fire counting_core 1000000000000001 1000000000000001 ctrlD_long after_double)) = [7, 7]"
    unfolding after_double_eq by (simp add: sample_defs)
  from d have d': "lastFire after_double = never \<and> u_strokeTimeout ctrlD = Fin 1000 \<and>
      (1000::rat) < of_int (1000000000 + 8640000000000000)" by blast
  show ?thesis
    using h tv(1) tv(6) 1 [unfolded 2] tv(2) tv(3) tv(7) b 3 [unfolded 4] c 5 [unfolded 6]
      tv(4) tv(8) d' 7 hl tv(5) g r 9
    by (intro conjI) (elim conjE, assumption)+
qed

text \<open>
  With \<open>strokeTimeout(Infinity)\<close> the last part fails without the bound on T: after the
  double stroke has fired and the stamp is "never" again, one more press, long after,
  fires the action a second time.
\<close>

theorem double_stroke_infinite_timeout_counterexample:
  "u_stroke ctrlD_forever = Double \<and> u_strokeTimeout ctrlD_forever = PosInf \<and>
   fired after_double = [7] \<and> lastFire after_double = never \<and>
   fired (snd (fire counting_core 1000000000 1000000000 ctrlD_forever after_double)) = [7, 7]"
  unfolding after_double_eq by (simp add: sample_defs op_defs)

text \<open>
  Claim C3, amended. If the native core reports, for every successful register call, the
  identity \<open>getHotkeyId\<close> computes, then the invariant "the key sets of \<open>globals\<close> and
  \<open>locals\<close> are disjoint, and every stored hotkey carries its computed id" holds in the
  initial state and is kept by register, unregister, handleEvent, recoverRoot, entering
  a subaction context and the expiry of the revert timer.
\<close>

theorem scopes_stay_disjoint:
  assumes "reports_computed_id gid N" and "scopes_inv gid s"
  shows "disjoint_scopes s \<and>
         scopes_inv gid (init n) \<and>
         (id_computed gid hk \<longrightarrow> scopes_inv gid (snd (register N hk g s))) \<and>
         scopes_inv gid (unregister N hk s) \<and>
         scopes_inv gid (snd (handleEvent N t1 t2 event s)) \<and>
         scopes_inv gid (snd (recoverRoot N s)) \<and>
         (list_all (id_computed gid) hks \<longrightarrow> scopes_inv gid (snd (withSnapshot N hks t s))) \<and>
         scopes_inv gid (snd (timerExpires N h s))"
proof (intro conjI impI)
  show "disjoint_scopes s" using assms(2) by (simp add: scopes_inv_def)
  show "scopes_inv gid (init n)" by (rule init_inv)
  show "scopes_inv gid (snd (register N hk g s))" if "id_computed gid hk"
    using assms that by (rule register_inv)
  show "scopes_inv gid (unregister N hk s)" using assms(2) by (rule unregister_inv)
  show "scopes_inv gid (snd (handleEvent N t1 t2 event s))" using assms by (rule handleEvent_inv)
  show "scopes_inv gid (snd (recoverRoot N s))" using assms by (rule recoverRoot_inv)
  show "scopes_inv gid (snd (withSnapshot N hks t s))" if "list_all (id_computed gid) hks"
    using assms that by (rule withSnapshot_inv)
  show "scopes_inv gid (snd (timerExpires N h s))" using assms by (rule timerExpires_inv)
qed

theorem scopes_stay_disjoint_witness:
  "reports_computed_id sample_getHotkeyId counting_core \<and> scopes_inv sample_getHotkeyId descended \<and>
   id_computed sample_getHotkeyId ctrlA_again \<and>
   disjoint_scopes descended \<and>
   scopes_inv sample_getHotkeyId (snd (register counting_core ctrlA_again True descended)) \<and>
   scopes_inv sample_getHotkeyId (snd (handleEvent counting_core 9000 9000 (pressed keyB) descended))"
proof -
  have i: "scopes_inv sample_getHotkeyId descended"
    unfolding descended_eq
    by (simp add: scopes_inv_def disjoint_scopes_def stored_def keys_def Object_values_def sample_defs)
  note th = scopes_stay_disjoint [OF counting_core_reports i,
      where hk = ctrlA_again and g = True and ?t1.0 = 9000 and ?t2.0 = 9000
        and event = "pressed keyB" and n = 0 and hks = "[]" and t = NaN and h = 0]
  from th sample_ids(4) counting_core_reports i show ?thesis by blast
qed

text \<open>
  When the reported identity differs from the computed one the scopes can overlap:
  the core here reports the key code alone, Escape is registered globally under 27, and
  Ctrl+Escape (computed id 2027, so not a duplicate) is then stored locally under 27 too.
\<close>

theorem scopes_overlap_counterexample:
  "hk_id escape \<noteq> hk_id ctrlEscape \<and>
   disjoint_scopes (snd (register keycode_core escape True (init 0))) \<and>
   fst (register keycode_core ctrlEscape False (snd (register keycode_core escape True (init 0)))) = Ok \<and>
   \<not> disjoint_scopes
        (snd (register keycode_core ctrlEscape False (snd (register keycode_core escape True (init 0)))))"
  by (simp add: sample_defs op_defs disjoint_scopes_def keys_def)

text \<open>
  Claim C4, amended. A press routed to a Single-stroke hotkey D always calls its action
  once, whatever the clock and the pending stroke are; the stamp \<open>lastFire\<close> is set to
  "never" (not to the current time); and when the context switch that follows does not
  throw, D is recorded as \<open>lastHotKey\<close>.
\<close>

theorem single_stroke_always_fires:
  assumes "u_stroke D = Single"
  shows "fire N t1 t2 D s =
           (case fireSubactions N D (s\<lparr>lastFire := never, fired := fired s @ [u_action D]\<rparr>) of
              (Threw e, s') \<Rightarrow> (Threw e, s')
            | (Ok, s') \<Rightarrow> (Ok, s'\<lparr>lastHotKey := Some (ref D)\<rparr>)) \<and>
         fired (snd (fire N t1 t2 D s)) = fired s @ [u_action D] \<and>
         lastFire (snd (fire N t1 t2 D s)) = never \<and>
         (fst (fire N t1 t2 D s) = Ok \<longrightarrow> lastHotKey (snd (fire N t1 t2 D s)) = Some (ref D))"
proof -
  from assms have f: "u_stroke D = Single \<or>
      (lastHotKey s = Some (ref D) \<and> js_le (js_minus t1 (lastFire s)) (u_strokeTimeout D))" by simp
  show ?thesis
    using fire_when_firing(1) [OF f, of N t2] fire_when_firing(2) [OF f, of N t2]
      fire_when_firing(3) [OF f, of N t2] fire_when_firing(4) [OF f, of N t2]
    by blast
qed

theorem single_stroke_always_fires_witness:
  "u_stroke keyB = Single \<and> lastFire awaiting = 1000 \<and>
   fired (snd (fire counting_core 1200 1200 keyB awaiting)) = [2] \<and>
   lastFire (snd (fire counting_core 1200 1200 keyB awaiting)) = never \<and>
   fst (fire counting_core 1200 1200 keyB awaiting) = Ok \<and>
   lastHotKey (snd (fire counting_core 1200 1200 keyB awaiting)) = Some 2"
proof -
  have h: "u_stroke keyB = Single" by (simp add: sample_defs)
  note th = single_stroke_always_fires [OF h, of counting_core 1200 1200 awaiting]
  have ok: "fst (fire counting_core 1200 1200 keyB awaiting) = Ok"
    unfolding awaiting_eq by (simp add: sample_defs op_defs)
  have v: "fired awaiting @ [u_action keyB] = [2]" "lastFire awaiting = 1000" "ref keyB = 2"
    unfolding awaiting_eq by (simp_all add: sample_defs)
  from th ok have "fired (snd (fire counting_core 1200 1200 keyB awaiting)) = fired awaiting @ [u_action keyB]"
    "lastFire (snd (fire counting_core 1200 1200 keyB awaiting)) = never"
    "lastHotKey (snd (fire counting_core 1200 1200 keyB awaiting)) = Some (ref keyB)" by blast+
  with h ok v show ?thesis by simp
qed

text \<open>
  The stamp after a Single-stroke fire at time 1200 is not 1200, and the pending stroke of
  Ctrl+D is gone; and when registering a subaction throws, \<open>lastHotKey\<close> is not updated.
\<close>

theorem single_stroke_stamp_counterexample:
  "u_stroke keyB = Single \<and> lastFire awaiting = 1000 \<and>
   lastFire (snd (fire counting_core 1200 1200 keyB awaiting)) \<noteq> 1200 \<and>
   u_stroke ctrlE = Single \<and>
   fst (fire counting_core 1200 1200 ctrlE clash_state) = Threw Duplicated_hotkey \<and>
   lastHotKey (snd (fire counting_core 1200 1200 ctrlE clash_state)) \<noteq> Some (ref ctrlE)"
  unfolding awaiting_eq clash_state_eq by (simp add: sample_defs op_defs)

text \<open>
  Claim C5, amended. If D1 occupies its identity in \<open>locals\<close> or \<open>globals\<close> and D2 has the
  same identity, registering D2 throws "Duplicated hotkey" and returns the state as it
  was: no native call is made and both scopes, with D1's entry, are unchanged. That is
  the case after a registration of D1 for which the native core reported D1's own
  identity: then D1 is in the chosen scope and registering D2 throws and changes nothing.
\<close>

theorem duplicate_register_rejected:
  "((obj_get (locals s) (hk_id D1) = Some D1 \<or> obj_get (globals s) (hk_id D1) = Some D1) \<and>
    hk_id D2 = hk_id D1 \<longrightarrow>
      register N D2 isGlobal s = (Threw Duplicated_hotkey, s)) \<and>
   (obj_get (locals s0) (hk_id D1) = None \<and> obj_get (globals s0) (hk_id D1) = None \<and>
    hm_register N (mods D1) (code D1) (native s0) = (\<lparr>isOk = True, rid = hk_id D1\<rparr>, n') \<and>
    hk_id D2 = hk_id D1 \<longrightarrow>
      obj_get (if asGlobal then globals (snd (register N D1 asGlobal s0)) else locals (snd (register N D1 asGlobal s0)))
         (hk_id D1) = Some D1 \<and>
      register N D2 isGlobal (snd (register N D1 asGlobal s0)) =
         (Threw Duplicated_hotkey, snd (register N D1 asGlobal s0)))"
proof (intro conjI impI)
  assume "(obj_get (locals s) (hk_id D1) = Some D1 \<or> obj_get (globals s) (hk_id D1) = Some D1) \<and>
    hk_id D2 = hk_id D1"
  then show "register N D2 isGlobal s = (Threw Duplicated_hotkey, s)"
    by (intro register_duplicate [of s D1]) simp_all
next
  assume a: "obj_get (locals s0) (hk_id D1) = None \<and> obj_get (globals s0) (hk_id D1) = None \<and>
    hm_register N (mods D1) (code D1) (native s0) = (\<lparr>isOk = True, rid = hk_id D1\<rparr>, n') \<and>
    hk_id D2 = hk_id D1"
  then have st: "obj_get (if asGlobal then globals (snd (register N D1 asGlobal s0)) else locals (snd (register N D1 asGlobal s0)))
         (hk_id D1) = Some D1"
    by (intro register_stores [where n' = n']) simp_all
  then show "obj_get (if asGlobal then globals (snd (register N D1 asGlobal s0)) else locals (snd (register N D1 asGlobal s0)))
         (hk_id D1) = Some D1" .
  from st have "obj_get (locals (snd (register N D1 asGlobal s0))) (hk_id D1) = Some D1 \<or>
      obj_get (globals (snd (register N D1 asGlobal s0))) (hk_id D1) = Some D1"
    by (cases asGlobal) simp_all
  then show "register N D2 isGlobal (snd (register N D1 asGlobal s0)) =
         (Threw Duplicated_hotkey, snd (register N D1 asGlobal s0))"
    using a by (intro register_duplicate [of _ D1]) simp_all
qed

theorem duplicate_register_rejected_witness:
  "obj_get (locals (init (0::nat))) (hk_id ctrlA) = None \<and>
   obj_get (globals (init (0::nat))) (hk_id ctrlA) = None \<and>
   hm_register counting_core (mods ctrlA) (code ctrlA) (native (init 0)) = (\<lparr>isOk = True, rid = hk_id ctrlA\<rparr>, 1) \<and>
   ref ctrlA_again \<noteq> ref ctrlA \<and> mods ctrlA_again = mods ctrlA \<and> code ctrlA_again = code ctrlA \<and>
   hk_id ctrlA_again = hk_id ctrlA \<and>
   snd (register counting_core ctrlA False (init 0)) = at_root \<and>
   obj_get (locals at_root) (hk_id ctrlA) = Some ctrlA \<and>
   register counting_core ctrlA_again True at_root = (Threw Duplicated_hotkey, at_root) \<and>
   register counting_core ctrlA_again False at_root = (Threw Duplicated_hotkey, at_root)"
proof -
  have hyp: "obj_get (locals (init (0::nat))) (hk_id ctrlA) = None \<and>
      obj_get (globals (init (0::nat))) (hk_id ctrlA) = None \<and>
      hm_register counting_core (mods ctrlA) (code ctrlA) (native (init 0)) =
        (\<lparr>isOk = True, rid = hk_id ctrlA\<rparr>, 1) \<and>
      hk_id ctrlA_again = hk_id ctrlA"
    by (simp add: sample_defs obj_get_def)
  have o: "ref ctrlA_again \<noteq> ref ctrlA \<and> mods ctrlA_again = mods ctrlA \<and> code ctrlA_again = code ctrlA"
    by (simp add: sample_defs)
  have r: "snd (register counting_core ctrlA False (init 0)) = at_root" by (simp add: at_root_def)
  note th = duplicate_register_rejected [where N = counting_core and ?s0.0 = "init 0" and ?D1.0 = ctrlA
      and ?D2.0 = ctrlA_again and asGlobal = False and n' = 1 and isGlobal = True]
  note c = th [THEN conjunct2, THEN mp, OF hyp]
  from c have e: "obj_get (locals at_root) (hk_id ctrlA) = Some ctrlA \<and>
      register counting_core ctrlA_again True at_root = (Threw Duplicated_hotkey, at_root)"
    unfolding r by simp
  then have occ: "(obj_get (locals at_root) (hk_id ctrlA) = Some ctrlA \<or>
      obj_get (globals at_root) (hk_id ctrlA) = Some ctrlA) \<and> hk_id ctrlA_again = hk_id ctrlA"
    using hyp by blast
  note th' = duplicate_register_rejected [where N = counting_core and s = at_root and ?D1.0 = ctrlA
      and ?D2.0 = ctrlA_again and isGlobal = False]
  note c' = th' [THEN conjunct1, THEN mp, OF occ]
  from hyp o r e c' show ?thesis by blast
qed

text \<open>
  When the native core reported another identity for D1, D1 is not held under its own
  and the duplicate is not noticed: with the core that reports the key code alone, a
  second object for Ctrl+Escape is registered without error and replaces the first.
\<close>

theorem duplicate_not_rejected_counterexample:
  "ref ctrlEscape_again \<noteq> ref ctrlEscape \<and> mods ctrlEscape_again = mods ctrlEscape \<and>
   code ctrlEscape_again = code ctrlEscape \<and> hk_id ctrlEscape_again = hk_id ctrlEscape \<and>
   register keycode_core ctrlEscape False (init 0) =
     (Ok, (init 0)\<lparr>native := 1, locals := [(27, ctrlEscape)]\<rparr>) \<and>
   register keycode_core ctrlEscape_again False ((init 0)\<lparr>native := 1, locals := [(27, ctrlEscape)]\<rparr>) =
     (Ok, (init 0)\<lparr>native := 2, locals := [(27, ctrlEscape_again)]\<rparr>)"
  by (simp add: sample_defs op_defs)

text \<open>
  Claim C6, amended. Entering a subaction context always leaves the root snapshot as it
  was if there is one and captures the values of \<open>locals\<close> otherwise. If moreover the
  native core accepts every call and reports the computed identities, every local entry
  sits under its own computed id, the scopes are disjoint, and the children carry
  computed, pairwise different ids none of which is a key of \<open>globals\<close>, then the call
  completes, the native core is asked to release every previous local and then to
  capture every child, \<open>locals\<close> holds exactly the children, each under its id, and
  \<open>globals\<close> is unchanged.
\<close>

theorem entering_context_replaces_locals:
  "root (snd (withSnapshot N hks t s)) =
     (case root s of None \<Rightarrow> Some (Object_values (locals s)) | Some r \<Rightarrow> Some r) \<and>
   (cooperative gid N \<and> keyed gid (locals s) \<and> disjoint_scopes s \<and>
    list_all (id_computed gid) hks \<and> distinct (map hk_id hks) \<and>
    hk_id ` set hks \<inter> keys (globals s) = {} \<longrightarrow>
    (\<exists>s'. withSnapshot N hks t s = (Ok, s') \<and>
          set (locals s') = entries hks \<and>
          globals s' = globals s \<and>
          native s' = captured N hks (released N (Object_values (locals s)) (native s))))"
proof (intro conjI impI)
  show "root (snd (withSnapshot N hks t s)) =
     (case root s of None \<Rightarrow> Some (Object_values (locals s)) | Some r \<Rightarrow> Some r)"
    by (rule withSnapshot_root)
next
  assume a: "cooperative gid N \<and> keyed gid (locals s) \<and> disjoint_scopes s \<and>
    list_all (id_computed gid) hks \<and> distinct (map hk_id hks) \<and>
    hk_id ` set hks \<inter> keys (globals s) = {}"
  then have dc: "distinct (map hk_id hks)" by simp
  have "set (placed hks []) = set ([] :: HotKey obj) \<union> entries hks"
    using dc by (intro set_placed) (simp_all add: keys_def)
  then have l: "set (placed hks []) = entries hks" by simp
  from a have "withSnapshot N hks t s = (Ok,
     s\<lparr>native := captured N hks (released N (Object_values (locals s)) (native s)),
       locals := placed hks [],
       root := (case root s of None \<Rightarrow> Some (Object_values (locals s)) | Some r \<Rightarrow> Some r),
       timeoutRecoverRoot := (if isNaN t then timeoutRecoverRoot s else Some (nextTimer s)),
       timers := (if isNaN t then timers (clearInterval (timeoutRecoverRoot s) s)
                  else timers (clearInterval (timeoutRecoverRoot s) s) @
                       [(nextTimer s, Math_min t (Fin 2147483647))]),
       nextTimer := (if isNaN t then nextTimer s else Suc (nextTimer s))\<rparr>)"
    by (intro withSnapshot_coop [where gid = gid]) simp_all
  then show "\<exists>s'. withSnapshot N hks t s = (Ok, s') \<and>
          set (locals s') = entries hks \<and>
          globals s' = globals s \<and>
          native s' = captured N hks (released N (Object_values (locals s)) (native s))"
    using l by simp
qed

theorem entering_context_replaces_locals_witness:
  "cooperative sample_getHotkeyId counting_core \<and> keyed sample_getHotkeyId (locals at_root) \<and>
   disjoint_scopes at_root \<and> list_all (id_computed sample_getHotkeyId) [keyB] \<and>
   distinct (map hk_id [keyB]) \<and> hk_id ` set [keyB] \<inter> keys (globals at_root) = {} \<and>
   root (snd (withSnapshot counting_core [keyB] (Fin 1000) at_root)) = Some [ctrlA] \<and>
   (\<exists>s'. withSnapshot counting_core [keyB] (Fin 1000) at_root = (Ok, s') \<and>
         set (locals s') = {(66, keyB)} \<and> globals s' = globals at_root \<and> native s' = 3)"
proof -
  have h: "keyed sample_getHotkeyId (locals at_root) \<and>
      disjoint_scopes at_root \<and> list_all (id_computed sample_getHotkeyId) [keyB] \<and>
      distinct (map hk_id [keyB]) \<and> hk_id ` set [keyB] \<inter> keys (globals at_root) = {}"
    unfolding at_root_eq by (simp add: keyed_def disjoint_scopes_def keys_def sample_defs)
  have v: "(case root at_root of None \<Rightarrow> Some (Object_values (locals at_root)) | Some r \<Rightarrow> Some r) = Some [ctrlA]"
    "entries [keyB] = {(66, keyB)}"
    "captured counting_core [keyB] (released counting_core (Object_values (locals at_root)) (native at_root)) = 3"
    unfolding at_root_eq
    by (simp_all add: Object_values_def entries_def captured_def released_def sample_defs)
  note th = entering_context_replaces_locals [of counting_core "[keyB]" "Fin 1000" at_root sample_getHotkeyId]
  from th h counting_core_cooperative show ?thesis unfolding v by blast
qed

text \<open>
  Without those conditions the children need not become the locals: a child on the
  combination of a global hotkey makes register throw, and a child the native core
  refuses is dropped silently; in both cases \<open>locals\<close> ends empty.
\<close>

theorem entering_context_counterexample:
  "fst (withSnapshot counting_core [escape_child] (Fin 1000) clash_state) = Threw Duplicated_hotkey \<and>
   locals (snd (withSnapshot counting_core [escape_child] (Fin 1000) clash_state)) = [] \<and>
   fst (withSnapshot picky_core [keyB] (Fin 1000) at_root) = Ok \<and>
   locals (snd (withSnapshot picky_core [keyB] (Fin 1000) at_root)) = []"
  unfolding clash_state_eq at_root_eq by (simp add: sample_defs op_defs)

text \<open>
  Claim C7, amended. Without a snapshot \<open>recoverRoot\<close> returns the state unchanged.
  Whenever \<open>recoverRoot\<close> completes without throwing, the snapshot is cleared, the timer
  handle is cleared if there was a snapshot, the pending revert timer is cancelled, and a
  second call returns the state unchanged. If the native core accepts every call and
  reports the computed identities, the locals sit under their computed ids, the scopes
  are disjoint and the snapshot's hotkeys carry computed, pairwise different ids none
  of which is a key of \<open>globals\<close>, then the call completes, releases every current
  local, captures every snapshotted hotkey, and \<open>locals\<close> holds exactly the snapshot.
\<close>

theorem recoverRoot_idempotent_when_completed:
  "(root s = None \<longrightarrow> recoverRoot N s = (Ok, s)) \<and>
   (recoverRoot N s = (Ok, s') \<longrightarrow>
      root s' = None \<and> recoverRoot N s' = (Ok, s') \<and>
      (root s \<noteq> None \<longrightarrow> timeoutRecoverRoot s' = None) \<and>
      (root s \<noteq> None \<and> one_timer s \<longrightarrow> timers s' = [])) \<and>
   (cooperative gid N \<and> keyed gid (locals s) \<and> disjoint_scopes s \<and> root s = Some r \<and>
    list_all (id_computed gid) r \<and> distinct (map hk_id r) \<and>
    hk_id ` set r \<inter> keys (globals s) = {} \<longrightarrow>
    (\<exists>s''. recoverRoot N s = (Ok, s'') \<and>
          set (locals s'') = entries r \<and>
          globals s'' = globals s \<and>
          native s'' = captured N r (released N (Object_values (locals s)) (native s))))"
proof (intro conjI impI)
  show "recoverRoot N s = (Ok, s)" if "root s = None"
    using that by (rule recoverRoot_at_root)
  show "root s' = None" if "recoverRoot N s = (Ok, s')"
    using that by (rule recoverRoot_completed)
  show "recoverRoot N s' = (Ok, s')" if "recoverRoot N s = (Ok, s')"
    using that by (rule recoverRoot_idem)
  show "timeoutRecoverRoot s' = None" if "recoverRoot N s = (Ok, s')" "root s \<noteq> None"
    using that by (rule recoverRoot_handle_cleared)
  show "timers s' = []" if "recoverRoot N s = (Ok, s')" "root s \<noteq> None \<and> one_timer s"
    using that recoverRoot_timers [of s N] by simp
next
  assume a: "cooperative gid N \<and> keyed gid (locals s) \<and> disjoint_scopes s \<and> root s = Some r \<and>
    list_all (id_computed gid) r \<and> distinct (map hk_id r) \<and>
    hk_id ` set r \<inter> keys (globals s) = {}"
  then have dr: "distinct (map hk_id r)" by simp
  have "set (placed r []) = set ([] :: HotKey obj) \<union> entries r"
    using dr by (intro set_placed) (simp_all add: keys_def)
  then have l: "set (placed r []) = entries r" by simp
  from a have "recoverRoot N s = (Ok,
     s\<lparr>native := captured N r (released N (Object_values (locals s)) (native s)),
       locals := placed r [], root := None, timeoutRecoverRoot := None,
       timers := timers (clearInterval (timeoutRecoverRoot s) s)\<rparr>)"
    by (intro recoverRoot_coop [where gid = gid]) simp_all
  then show "\<exists>s''. recoverRoot N s = (Ok, s'') \<and>
          set (locals s'') = entries r \<and>
          globals s'' = globals s \<and>
          native s'' = captured N r (released N (Object_values (locals s)) (native s))"
    using l by simp
qed

theorem recoverRoot_idempotent_when_completed_witness:
  "cooperative sample_getHotkeyId counting_core \<and> keyed sample_getHotkeyId (locals descended) \<and>
   disjoint_scopes descended \<and> root descended = Some [ctrlA] \<and> one_timer descended \<and>
   list_all (id_computed sample_getHotkeyId) [ctrlA] \<and> distinct (map hk_id [ctrlA]) \<and>
   hk_id ` set [ctrlA] \<inter> keys (globals descended) = {} \<and>
   (\<exists>s'. recoverRoot counting_core descended = (Ok, s') \<and> set (locals s') = {(2065, ctrlA)} \<and>
      globals s' = globals descended \<and> native s' = 6 \<and> root s' = None \<and>
      timeoutRecoverRoot s' = None \<and> timers s' = [] \<and> recoverRoot counting_core s' = (Ok, s'))"
proof -
  have h: "keyed sample_getHotkeyId (locals descended) \<and>
      disjoint_scopes descended \<and> root descended = Some [ctrlA] \<and>
      list_all (id_computed sample_getHotkeyId) [ctrlA] \<and> distinct (map hk_id [ctrlA]) \<and>
      hk_id ` set [ctrlA] \<inter> keys (globals descended) = {}"
    unfolding descended_eq by (simp add: keyed_def disjoint_scopes_def keys_def sample_defs)
  have o: "one_timer descended" unfolding descended_eq by (simp add: one_timer_def)
  have v: "entries [ctrlA] = {(2065, ctrlA)}"
    "captured counting_core [ctrlA] (released counting_core (Object_values (locals descended)) (native descended)) = 6"
    unfolding descended_eq
    by (simp_all add: Object_values_def entries_def captured_def released_def sample_defs)
  have hyp: "cooperative sample_getHotkeyId counting_core \<and> keyed sample_getHotkeyId (locals descended) \<and>
      disjoint_scopes descended \<and> root descended = Some [ctrlA] \<and>
      list_all (id_computed sample_getHotkeyId) [ctrlA] \<and> distinct (map hk_id [ctrlA]) \<and>
      hk_id ` set [ctrlA] \<inter> keys (globals descended) = {}"
    using counting_core_cooperative h by (rule conjI)
  note th = recoverRoot_idempotent_when_completed [of descended counting_core descended sample_getHotkeyId "[ctrlA]"]
  note ex = th [THEN conjunct2, THEN conjunct2, THEN mp, OF hyp]
  then obtain s' where s1: "recoverRoot counting_core descended = (Ok, s')"
    and s2: "set (locals s') = entries [ctrlA]"
    and s3: "globals s' = globals descended"
    and s4: "native s' = captured counting_core [ctrlA]
          (released counting_core (Object_values (locals descended)) (native descended))"
    by (elim exE conjE)
  note th' = recoverRoot_idempotent_when_completed [of descended counting_core s' sample_getHotkeyId "[ctrlA]"]
  note after = th' [THEN conjunct2, THEN conjunct1, THEN mp, OF s1]
  from h have nr: "root descended \<noteq> None" by simp
  from after nr o have d: "root s' = None" "recoverRoot counting_core s' = (Ok, s')"
    "timeoutRecoverRoot s' = None" "timers s' = []"
    by simp_all
  have "recoverRoot counting_core descended = (Ok, s') \<and> set (locals s') = {(2065, ctrlA)} \<and>
      globals s' = globals descended \<and> native s' = 6 \<and> root s' = None \<and>
      timeoutRecoverRoot s' = None \<and> timers s' = [] \<and> recoverRoot counting_core s' = (Ok, s')"
    using s1 s2 s3 s4 d unfolding v by (intro conjI)
  then have "\<exists>s'. recoverRoot counting_core descended = (Ok, s') \<and> set (locals s') = {(2065, ctrlA)} \<and>
      globals s' = globals descended \<and> native s' = 6 \<and> root s' = None \<and>
      timeoutRecoverRoot s' = None \<and> timers s' = [] \<and> recoverRoot counting_core s' = (Ok, s')"
    by (rule exI)
  with hyp o show ?thesis by (intro conjI) (elim conjE, assumption)+
qed

text \<open>
  When a snapshotted hotkey's combination has meanwhile been registered globally,
  \<open>recoverRoot\<close> throws after restoring F2 only, keeps the snapshot, and a second call
  again calls the native core (its call count goes from 8 to 10).
\<close>

theorem recoverRoot_not_idempotent_counterexample:
  "root stuck = Some [keyF2, ctrlA] \<and>
   fst (recoverRoot counting_core stuck) = Threw Duplicated_hotkey \<and>
   root (snd (recoverRoot counting_core stuck)) = Some [keyF2, ctrlA] \<and>
   locals (snd (recoverRoot counting_core stuck)) = [(113, keyF2)] \<and>
   native (snd (recoverRoot counting_core stuck)) = 8 \<and>
   native (snd (recoverRoot counting_core (snd (recoverRoot counting_core stuck)))) = 10"
  unfolding stuck_eq by (simp add: sample_defs op_defs)

text \<open>
  Claim C8. When the hotkey's id is free in both scopes and the native register call
  answers not-ok, \<open>register\<close> returns normally and the state differs from the one before
  only in the native core's own state: neither \<open>globals\<close> nor \<open>locals\<close> gets the hotkey.
\<close>

theorem refused_registration_is_dropped:
  assumes "obj_get (locals s) (hk_id hk) = None" and "obj_get (globals s) (hk_id hk) = None"
    and "hm_register N (mods hk) (code hk) (native s) = (result, n')" and "\<not> isOk result"
  shows "register N hk isGlobal s = (Ok, s\<lparr>native := n'\<rparr>)"
  using assms by (simp add: register_def)

theorem refused_registration_is_dropped_witness:
  "obj_get (locals at_root) (hk_id keyB) = None \<and> obj_get (globals at_root) (hk_id keyB) = None \<and>
   hm_register picky_core (mods keyB) (code keyB) (native at_root) = (\<lparr>isOk = False, rid = 66\<rparr>, 2) \<and>
   register picky_core keyB True at_root = (Ok, at_root\<lparr>native := 2\<rparr>) \<and>
   globals (at_root\<lparr>native := 2\<rparr>) = globals at_root \<and> locals (at_root\<lparr>native := 2\<rparr>) = locals at_root"
proof -
  have h1: "obj_get (locals at_root) (hk_id keyB) = None"
    and h2: "obj_get (globals at_root) (hk_id keyB) = None"
    and h3: "hm_register picky_core (mods keyB) (code keyB) (native at_root) = (\<lparr>isOk = False, rid = 66\<rparr>, 2)"
    unfolding at_root_eq by (simp_all add: sample_defs op_defs)
  have h4: "\<not> isOk \<lparr>isOk = False, rid = 66\<rparr>" by simp
  from refused_registration_is_dropped [OF h1 h2 h3 h4, of True] h1 h2 h3
  show ?thesis by simp
qed




text \<open>
  Claim C10. \<open>global(v)\<close> empties the subaction list and sets the flag to \<open>v\<close> for both
  values of \<open>v\<close>; \<open>subaction(c)\<close> succeeds exactly on a non-global builder, and
  \<open>global(false)\<close> after it leaves a non-global hotkey without children.
\<close>

theorem global_clears_subactions:
  "u_subactions (global v hk) = [] \<and> u_global (global v hk) = v \<and>
   (case subaction c hk of
      Inl e \<Rightarrow> u_global hk
    | Inr hk1 \<Rightarrow> \<not> u_global hk \<and> u_subactions hk1 = u_subactions hk @ [c] \<and>
        u_subactions (global False hk1) = [] \<and> \<not> u_global (global False hk1))"
  by (cases hk) simp

theorem global_clears_subactions_witness:
  "u_subactions ctrlA = [keyB] \<and> u_subactions (global False ctrlA) = [] \<and>
   u_global (global False ctrlA) = False"
proof -
  have "u_subactions ctrlA = [keyB]" by (simp add: sample_defs)
  with global_clears_subactions [of False ctrlA keyB] show ?thesis by simp
qed

end
